theory Spec2Isabelle
  imports Main "HOL-Library.Word"
begin

unbundle bit_operations_syntax

section \<open>Machine model\<close>

text \<open>
  The allocator of \<^verbatim>\<open>mm.c\<close> works on a 64-bit machine: \<^verbatim>\<open>size_t\<close> and pointers are
  64-bit words whose arithmetic wraps around. Memory is an array of bytes; a word access
  reads or writes eight consecutive bytes, least significant byte first.
\<close>

type_synonym addr = "64 word"
type_synonym size_t = "64 word"

text \<open>
  A run of the C code can end in three ways: it returns, it touches memory outside the
  region handed out by the heap provider (\<open>Segfault\<close>, with the address of the access),
  or a loop never ends (\<open>Diverges\<close>).
\<close>

datatype fault = Segfault addr | Diverges

type_synonym 'a res = "fault + 'a"

definition rbind :: "'a res \<Rightarrow> ('a \<Rightarrow> 'b res) \<Rightarrow> 'b res" where
  "rbind m f = (case m of Inl e \<Rightarrow> Inl e | Inr x \<Rightarrow> f x)"

record state =
  mem :: "addr \<Rightarrow> 8 word"
  mem_start_brk :: addr
  mem_brk :: addr
  mem_max_addr :: addr
  heap_listp :: addr
  seg_listp :: addr

definition byte_of :: "64 word \<Rightarrow> nat \<Rightarrow> 8 word" where
  "byte_of v i = ucast (drop_bit (8 * i) v)"

definition join8 :: "(nat \<Rightarrow> 8 word) \<Rightarrow> 64 word" where
  "join8 b = ucast (b 0) OR push_bit 8 (ucast (b 1)) OR push_bit 16 (ucast (b 2))
     OR push_bit 24 (ucast (b 3)) OR push_bit 32 (ucast (b 4))
     OR push_bit 40 (ucast (b 5)) OR push_bit 48 (ucast (b 6))
     OR push_bit 56 (ucast (b 7))"

definition load64 :: "(addr \<Rightarrow> 8 word) \<Rightarrow> addr \<Rightarrow> 64 word" where
  "load64 m p = join8 (\<lambda>i. m (p + of_nat i))"

definition store64 :: "(addr \<Rightarrow> 8 word) \<Rightarrow> addr \<Rightarrow> 64 word \<Rightarrow> (addr \<Rightarrow> 8 word)" where
  "store64 m p v = (\<lambda>a. if a - p < 8 then byte_of v (unat (a - p)) else m a)"

text \<open>The bytes \<open>[p, p + n)\<close> lie inside the region obtained from the heap provider.\<close>

definition valid :: "state \<Rightarrow> addr \<Rightarrow> nat \<Rightarrow> bool" where
  "valid s p n \<longleftrightarrow> unat (mem_start_brk s) \<le> unat p \<and> unat p + n \<le> unat (mem_brk s)"

subsection \<open>The heap provider and the byte-moving primitives\<close>

text \<open>
  Modelled from the spec: \<^verbatim>\<open>memlib.c\<close> (\<^verbatim>\<open>mem_sbrk\<close>, \<^verbatim>\<open>mem_heap_lo\<close>, \<^verbatim>\<open>mem_heap_hi\<close>) is not
  part of the sources. The provider grows the region by \<open>incr\<close> bytes and returns the start
  of the new bytes; it never shrinks; when the region cannot grow it returns the sentinel
  \<open>(void *)-1\<close> and leaves the region as it is.
\<close>

definition mem_sbrk :: "state \<Rightarrow> size_t \<Rightarrow> state \<times> addr" where
  "mem_sbrk s incr =
     (if unat (mem_brk s) + unat incr > unat (mem_max_addr s) then (s, - 1)
      else (s\<lparr>mem_brk := mem_brk s + incr\<rparr>, mem_brk s))"

text \<open>
  Modelled from the spec: the inclusive bounds of the managed region. The source calls them
  by two names (\<^verbatim>\<open>mem_heap_lo\<close>, \<^verbatim>\<open>mem_heap_hi\<close> and \<^verbatim>\<open>mm_heap_lo\<close>, \<^verbatim>\<open>mm_heap_hi\<close>); neither pair
  is defined in the sources.
\<close>

definition mem_heap_lo :: "state \<Rightarrow> addr" where
  "mem_heap_lo s = mem_start_brk s"

definition mem_heap_hi :: "state \<Rightarrow> addr" where
  "mem_heap_hi s = mem_brk s - 1"

definition mm_heap_lo :: "state \<Rightarrow> addr" where
  "mm_heap_lo s = mem_heap_lo s"

definition mm_heap_hi :: "state \<Rightarrow> addr" where
  "mm_heap_hi s = mem_heap_hi s"

text \<open>
  Modelled from the spec: the bulk copy and the bulk fill (\<^verbatim>\<open>memcpy\<close>, \<^verbatim>\<open>memset\<close>; the
  driver's versions are not part of the sources). They move \<open>n\<close> bytes; no byte is
  touched when \<open>n = 0\<close>.
\<close>

definition memcpy :: "state \<Rightarrow> addr \<Rightarrow> addr \<Rightarrow> size_t \<Rightarrow> state res" where
  "memcpy s dst src n =
     (if n = 0 then Inr s
      else if \<not> valid s src (unat n) then Inl (Segfault src)
      else if \<not> valid s dst (unat n) then Inl (Segfault dst)
      else Inr (s\<lparr>mem := (\<lambda>a. if a - dst < n then mem s (src + (a - dst)) else mem s a)\<rparr>))"

definition memset :: "state \<Rightarrow> addr \<Rightarrow> 8 word \<Rightarrow> size_t \<Rightarrow> state res" where
  "memset s dst c n =
     (if n = 0 then Inr s
      else if \<not> valid s dst (unat n) then Inl (Segfault dst)
      else Inr (s\<lparr>mem := (\<lambda>a. if a - dst < n then c else mem s a)\<rparr>))"

section \<open>The helper functions of \<^verbatim>\<open>mm.c\<close>\<close>

definition WSIZE :: "64 word" where "WSIZE = 8"
definition DSIZE :: "64 word" where "DSIZE = 16"
definition CHUNKSIZE :: "64 word" where "CHUNKSIZE = push_bit 12 1"
definition SEGLIST_CLASSES :: nat where "SEGLIST_CLASSES = 12"
definition ALIGNMENT :: "64 word" where "ALIGNMENT = 16"

definition PACK :: "size_t \<Rightarrow> size_t \<Rightarrow> size_t" where
  "PACK sz alloc = sz OR alloc"

definition GET :: "state \<Rightarrow> addr \<Rightarrow> size_t res" where
  "GET s p = (if valid s p 8 then Inr (load64 (mem s) p) else Inl (Segfault p))"

definition PUT :: "state \<Rightarrow> addr \<Rightarrow> size_t \<Rightarrow> state res" where
  "PUT s p val =
     (if valid s p 8 then Inr (s\<lparr>mem := store64 (mem s) p val\<rparr>) else Inl (Segfault p))"

definition GET_SIZE :: "state \<Rightarrow> addr \<Rightarrow> size_t res" where
  "GET_SIZE s p = rbind (GET s p) (\<lambda>w. Inr (w AND NOT 7))"

definition GET_ALLOC :: "state \<Rightarrow> addr \<Rightarrow> size_t res" where
  "GET_ALLOC s p = rbind (GET s p) (\<lambda>w. Inr (w AND 1))"

definition HDRP :: "addr \<Rightarrow> addr" where
  "HDRP bp = bp - WSIZE"

definition FTRP :: "state \<Rightarrow> addr \<Rightarrow> addr res" where
  "FTRP s bp = rbind (GET_SIZE s (HDRP bp)) (\<lambda>sz. Inr (bp + sz - DSIZE))"

definition NEXT_BLKP :: "state \<Rightarrow> addr \<Rightarrow> addr res" where
  "NEXT_BLKP s bp = rbind (GET_SIZE s (bp - WSIZE)) (\<lambda>sz. Inr (bp + sz))"

definition PREV_BLKP :: "state \<Rightarrow> addr \<Rightarrow> addr res" where
  "PREV_BLKP s bp = rbind (GET_SIZE s (bp - DSIZE)) (\<lambda>sz. Inr (bp - sz))"

definition PREV_ALLOC :: "state \<Rightarrow> addr \<Rightarrow> size_t res" where
  "PREV_ALLOC s p = rbind (GET s p) (\<lambda>w. Inr (w AND 2))"

definition PUT_ADDR :: "state \<Rightarrow> addr \<Rightarrow> addr \<Rightarrow> state res" where
  "PUT_ADDR s p val = PUT s p val"

definition NEXT_FREE_ADDR :: "addr \<Rightarrow> addr" where
  "NEXT_FREE_ADDR bp = bp"

definition PREV_FREE_ADDR :: "addr \<Rightarrow> addr" where
  "PREV_FREE_ADDR bp = bp + WSIZE"

definition get_segclass_ind :: "size_t \<Rightarrow> nat" where
  "get_segclass_ind sz =
     (if sz \<le> 32 then 0
      else if sz \<le> 64 then 1
      else if sz \<le> 128 then 2
      else if sz \<le> 256 then 3
      else if sz \<le> 512 then 4
      else if sz \<le> 1024 then 5
      else if sz \<le> 2048 then 6
      else if sz \<le> 4096 then 7
      else if sz \<le> 8192 then 8
      else if sz \<le> 16384 then 9
      else if sz \<le> 32768 then 10
      else 11)"

definition align :: "size_t \<Rightarrow> size_t" where
  "align x = ALIGNMENT * ((x + ALIGNMENT - 1) div ALIGNMENT)"

text \<open>The address of the root of free list number \<open>ind\<close>: \<^verbatim>\<open>seg_listp + ind*WSIZE\<close>.\<close>

definition seg_class :: "state \<Rightarrow> nat \<Rightarrow> addr" where
  "seg_class s ind = seg_listp s + of_nat ind * WSIZE"

definition seglist_add :: "state \<Rightarrow> addr \<Rightarrow> size_t \<Rightarrow> state res" where
  "seglist_add s bp sz =
     (let ind = get_segclass_ind sz; class = seg_class s ind in
      rbind (GET s class) (\<lambda>first_blk.
        if first_blk \<noteq> 0 then
          rbind (PUT_ADDR s class bp) (\<lambda>s1.
          rbind (PUT_ADDR s1 (NEXT_FREE_ADDR bp) first_blk) (\<lambda>s2.
          rbind (PUT_ADDR s2 (PREV_FREE_ADDR bp) 0) (\<lambda>s3.
          PUT_ADDR s3 (PREV_FREE_ADDR first_blk) bp)))
        else
          rbind (PUT_ADDR s class bp) (\<lambda>s1.
          rbind (PUT_ADDR s1 (NEXT_FREE_ADDR bp) 0) (\<lambda>s2.
          PUT_ADDR s2 (PREV_FREE_ADDR bp) 0))))"

definition seglist_delete :: "state \<Rightarrow> addr \<Rightarrow> size_t \<Rightarrow> state res" where
  "seglist_delete s bp sz =
     (let ind = get_segclass_ind sz in
      rbind (GET s (NEXT_FREE_ADDR bp)) (\<lambda>next.
      rbind (GET s (PREV_FREE_ADDR bp)) (\<lambda>prev.
        if next \<noteq> 0 \<and> prev = 0 then
          rbind (PUT_ADDR s (seg_class s ind) next) (\<lambda>s1.
          PUT_ADDR s1 (PREV_FREE_ADDR next) 0)
        else if next = 0 \<and> prev \<noteq> 0 then
          PUT_ADDR s (NEXT_FREE_ADDR prev) 0
        else if next \<noteq> 0 \<and> prev \<noteq> 0 then
          rbind (PUT_ADDR s (PREV_FREE_ADDR next) prev) (\<lambda>s1.
          PUT_ADDR s1 (NEXT_FREE_ADDR prev) next)
        else
          PUT_ADDR s (seg_class s ind) 0)))"

text \<open>
  \<^verbatim>\<open>coalesce\<close>: every macro call of the source reads the memory as it is at that point, so
  the model reads again after each write.
\<close>

definition coalesce_next :: "state \<Rightarrow> addr \<Rightarrow> size_t \<Rightarrow> size_t \<Rightarrow> (state \<times> addr) res" where
  "coalesce_next s bp sz prev_alloc =
     rbind (seglist_delete s bp sz) (\<lambda>s1.
     rbind (NEXT_BLKP s1 bp) (\<lambda>nb.
     rbind (GET_SIZE s1 (HDRP nb)) (\<lambda>nsz.
     rbind (seglist_delete s1 nb nsz) (\<lambda>s2.
     rbind (NEXT_BLKP s2 bp) (\<lambda>nb2.
     rbind (GET_SIZE s2 (HDRP nb2)) (\<lambda>nsz2.
     let sz' = sz + nsz2 in
     rbind (PUT s2 (HDRP bp) (PACK sz' prev_alloc)) (\<lambda>s3.
     rbind (FTRP s3 bp) (\<lambda>ftr.
     rbind (GET s3 (HDRP bp)) (\<lambda>hdr.
     rbind (PUT s3 ftr hdr) (\<lambda>s4.
     rbind (seglist_add s4 bp sz') (\<lambda>s5.
     Inr (s5, bp))))))))))))"

text \<open>
  The common tail of the two cases where the previous block is free: rewrite the header
  and the footer of the previous block with the new size, insert it, and return it.
\<close>

definition coalesce_into_prev :: "state \<Rightarrow> addr \<Rightarrow> size_t \<Rightarrow> (state \<times> addr) res" where
  "coalesce_into_prev s bp sz' =
     rbind (PREV_BLKP s bp) (\<lambda>pb.
     rbind (PREV_ALLOC s (HDRP pb)) (\<lambda>ppa.
     rbind (PUT s (HDRP pb) (PACK sz' ppa)) (\<lambda>s1.
     rbind (PREV_BLKP s1 bp) (\<lambda>pb1.
     rbind (FTRP s1 pb1) (\<lambda>ftr.
     rbind (GET s1 (HDRP pb1)) (\<lambda>hdr.
     rbind (PUT s1 ftr hdr) (\<lambda>s2.
     rbind (PREV_BLKP s2 bp) (\<lambda>pb2.
     rbind (seglist_add s2 pb2 sz') (\<lambda>s3.
     rbind (PREV_BLKP s3 bp) (\<lambda>pb3.
     Inr (s3, pb3)))))))))))"

definition coalesce_prev :: "state \<Rightarrow> addr \<Rightarrow> size_t \<Rightarrow> (state \<times> addr) res" where
  "coalesce_prev s bp sz =
     rbind (seglist_delete s bp sz) (\<lambda>s1.
     rbind (PREV_BLKP s1 bp) (\<lambda>pb.
     rbind (GET_SIZE s1 (HDRP pb)) (\<lambda>psz.
     rbind (seglist_delete s1 pb psz) (\<lambda>s2.
     rbind (PREV_BLKP s2 bp) (\<lambda>pb2.
     rbind (GET_SIZE s2 (HDRP pb2)) (\<lambda>psz2.
     coalesce_into_prev s2 bp (sz + psz2)))))))"

definition coalesce_both :: "state \<Rightarrow> addr \<Rightarrow> size_t \<Rightarrow> (state \<times> addr) res" where
  "coalesce_both s bp sz =
     rbind (seglist_delete s bp sz) (\<lambda>s1.
     rbind (PREV_BLKP s1 bp) (\<lambda>pb.
     rbind (GET_SIZE s1 (HDRP pb)) (\<lambda>psz.
     rbind (seglist_delete s1 pb psz) (\<lambda>s2.
     rbind (NEXT_BLKP s2 bp) (\<lambda>nb.
     rbind (GET_SIZE s2 (HDRP nb)) (\<lambda>nsz.
     rbind (seglist_delete s2 nb nsz) (\<lambda>s3.
     rbind (PREV_BLKP s3 bp) (\<lambda>pb3.
     rbind (GET_SIZE s3 (HDRP pb3)) (\<lambda>psz3.
     rbind (NEXT_BLKP s3 bp) (\<lambda>nb3.
     rbind (GET_SIZE s3 (HDRP nb3)) (\<lambda>nsz3.
     coalesce_into_prev s3 bp (sz + (psz3 + nsz3)))))))))))))"

definition coalesce :: "state \<Rightarrow> addr \<Rightarrow> (state \<times> addr) res" where
  "coalesce s bp =
     rbind (PREV_ALLOC s (HDRP bp)) (\<lambda>prev_alloc.
     rbind (NEXT_BLKP s bp) (\<lambda>nb.
     rbind (GET_ALLOC s (HDRP nb)) (\<lambda>next_alloc.
     rbind (GET_SIZE s (HDRP bp)) (\<lambda>sz.
       if prev_alloc \<noteq> 0 \<and> next_alloc \<noteq> 0 then Inr (s, bp)
       else if prev_alloc \<noteq> 0 \<and> next_alloc = 0 then coalesce_next s bp sz prev_alloc
       else if prev_alloc = 0 \<and> next_alloc \<noteq> 0 then coalesce_prev s bp sz
       else coalesce_both s bp sz))))"

definition extend_heap :: "state \<Rightarrow> size_t \<Rightarrow> (state \<times> addr) res" where
  "extend_heap s words =
     (let sz = align words; (s0, bp) = mem_sbrk s sz in
      if bp = - 1 then Inr (s0, 0)
      else
        rbind (PREV_ALLOC s0 (HDRP bp)) (\<lambda>pa.
        rbind (PUT s0 (HDRP bp) (PACK sz pa)) (\<lambda>s1.
        rbind (FTRP s1 bp) (\<lambda>ftr.
        rbind (GET s1 (HDRP bp)) (\<lambda>hdr.
        rbind (PUT s1 ftr hdr) (\<lambda>s2.
        rbind (seglist_add s2 bp sz) (\<lambda>s3.
        rbind (NEXT_BLKP s3 bp) (\<lambda>nb.
        rbind (PUT s3 (HDRP nb) (PACK 0 1)) (\<lambda>s4.
        coalesce s4 bp)))))))))"

text \<open>A loop that never ends makes the run diverge.\<close>

definition run_loop :: "'a res option \<Rightarrow> 'a res" where
  "run_loop r = (case r of None \<Rightarrow> Inl Diverges | Some x \<Rightarrow> x)"

text \<open>
  The loop of \<^verbatim>\<open>seglist_search\<close>. It follows the next links until it meets a null link,
  and nothing in the code bounds the number of steps: on a cyclic list it runs forever,
  which is the value \<open>None\<close>. The three reads of the header of \<open>cur\<close> in one iteration see
  the same memory, so the model reads it once.
\<close>

partial_function (option) seglist_search_loop ::
  "state \<Rightarrow> size_t \<Rightarrow> addr \<Rightarrow> addr \<Rightarrow> size_t \<Rightarrow> addr res option" where
  "seglist_search_loop s sz cur best diff =
     (if cur = 0 then Some (Inr best)
      else
        case GET_SIZE s (HDRP cur) of
          Inl e \<Rightarrow> Some (Inl e)
        | Inr csz \<Rightarrow>
            if sz \<le> csz \<and> (best = 0 \<or> diff > csz - sz) then
              (if csz - sz = 0 then Some (Inr cur)
               else
                 case GET s (NEXT_FREE_ADDR cur) of
                   Inl e \<Rightarrow> Some (Inl e)
                 | Inr nxt \<Rightarrow> seglist_search_loop s sz nxt cur (csz - sz))
            else
              case GET s (NEXT_FREE_ADDR cur) of
                Inl e \<Rightarrow> Some (Inl e)
              | Inr nxt \<Rightarrow> seglist_search_loop s sz nxt best diff)"

definition seglist_search :: "state \<Rightarrow> nat \<Rightarrow> size_t \<Rightarrow> addr res" where
  "seglist_search s list sz =
     rbind (GET s (seg_class s list)) (\<lambda>cur.
       run_loop (seglist_search_loop s sz cur 0 0))"

function find_fit_loop :: "state \<Rightarrow> size_t \<Rightarrow> nat \<Rightarrow> addr res" where
  "find_fit_loop s asize i =
     (if i < SEGLIST_CLASSES then
        (case seglist_search s i asize of
           Inl e \<Rightarrow> Inl e
         | Inr bp \<Rightarrow> if bp \<noteq> 0 then Inr bp else find_fit_loop s asize (i + 1))
      else Inr 0)"
  by pat_completeness auto
termination
  by (relation "measure (\<lambda>(s, asize, i). SEGLIST_CLASSES - i)") auto

definition find_fit :: "state \<Rightarrow> size_t \<Rightarrow> addr res" where
  "find_fit s asize = find_fit_loop s asize (get_segclass_ind asize)"

definition place :: "state \<Rightarrow> addr \<Rightarrow> size_t \<Rightarrow> state res" where
  "place s bp asize =
     rbind (GET_SIZE s (HDRP bp)) (\<lambda>csize.
       if csize - asize \<ge> 2 * DSIZE then
         rbind (seglist_delete s bp csize) (\<lambda>s1.
         rbind (PREV_ALLOC s1 (HDRP bp)) (\<lambda>pa.
         rbind (PUT s1 (HDRP bp) (PACK asize (PACK pa 1))) (\<lambda>s2.
         rbind (NEXT_BLKP s2 bp) (\<lambda>bp'.
         rbind (PUT s2 (HDRP bp') (PACK (csize - asize) 2)) (\<lambda>s3.
         rbind (FTRP s3 bp') (\<lambda>ftr.
         rbind (PUT s3 ftr (PACK (csize - asize) 2)) (\<lambda>s4.
         seglist_add s4 bp' (csize - asize))))))))
       else
         rbind (seglist_delete s bp csize) (\<lambda>s1.
         rbind (PREV_ALLOC s1 (HDRP bp)) (\<lambda>pa.
         rbind (PUT s1 (HDRP bp) (PACK csize (PACK pa 1))) (\<lambda>s2.
         rbind (NEXT_BLKP s2 bp) (\<lambda>nb.
         rbind (GET s2 (HDRP nb)) (\<lambda>w.
         PUT s2 (HDRP nb) (PACK w 2)))))))"

section \<open>The public functions of \<^verbatim>\<open>mm.c\<close>\<close>

function init_seglist :: "state \<Rightarrow> nat \<Rightarrow> state res" where
  "init_seglist s i =
     (if i < SEGLIST_CLASSES then
        (case PUT_ADDR s (seg_class s i) 0 of
           Inl e \<Rightarrow> Inl e
         | Inr s' \<Rightarrow> init_seglist s' (i + 1))
      else Inr s)"
  by pat_completeness auto
termination
  by (relation "measure (\<lambda>(s, i). SEGLIST_CLASSES - i)") auto

text \<open>
  \<^verbatim>\<open>mm_init\<close>. The assignments to \<^verbatim>\<open>seg_listp\<close> and \<^verbatim>\<open>heap_listp\<close> happen inside the
  conditions, so the globals hold the sentinel when the provider fails.
\<close>

definition mm_init :: "state \<Rightarrow> (state \<times> bool) res" where
  "mm_init s =
     (let (s0, p) = mem_sbrk s (of_nat SEGLIST_CLASSES * WSIZE); s1 = s0\<lparr>seg_listp := p\<rparr> in
      if p = - 1 then Inr (s1, False)
      else
        rbind (init_seglist s1 0) (\<lambda>s2.
        let (s3, q) = mem_sbrk s2 (4 * WSIZE); s4 = s3\<lparr>heap_listp := q\<rparr> in
        if q = - 1 then Inr (s4, False)
        else
          rbind (PUT s4 (heap_listp s4) 0) (\<lambda>s5.
          rbind (PUT s5 (heap_listp s5 + 1 * WSIZE) (PACK DSIZE 1)) (\<lambda>s6.
          rbind (PUT s6 (heap_listp s6 + 2 * WSIZE) (PACK DSIZE 1)) (\<lambda>s7.
          rbind (PUT s7 (heap_listp s7 + 3 * WSIZE) (PACK 0 (PACK 2 1))) (\<lambda>s8.
          let s9 = s8\<lparr>heap_listp := heap_listp s8 + 4 * WSIZE\<rparr> in
          rbind (extend_heap s9 (CHUNKSIZE div WSIZE)) (\<lambda>(s10, bp).
          if bp = 0 then Inr (s10, False) else Inr (s10, True))))))))"

definition malloc :: "state \<Rightarrow> size_t \<Rightarrow> (state \<times> addr) res" where
  "malloc s sz =
     (if sz \<le> 0 then Inr (s, 0)
      else
        let asize = align (sz + DSIZE) in
        rbind (find_fit s asize) (\<lambda>bp.
          if bp \<noteq> 0 then rbind (place s bp asize) (\<lambda>s1. Inr (s1, bp))
          else
            rbind (extend_heap s asize) (\<lambda>(s1, bp1).
              if bp1 = 0 then Inr (s1, 0)
              else rbind (place s1 bp1 asize) (\<lambda>s2. Inr (s2, bp1)))))"

definition free :: "state \<Rightarrow> addr \<Rightarrow> state res" where
  "free s ptr =
     (if ptr = 0 then Inr s
      else
        rbind (GET_SIZE s (HDRP ptr)) (\<lambda>sz.
        rbind (PREV_ALLOC s (HDRP ptr)) (\<lambda>pa.
        rbind (PUT s (HDRP ptr) (PACK sz pa)) (\<lambda>s1.
        rbind (FTRP s1 ptr) (\<lambda>ftr.
        rbind (GET s1 (HDRP ptr)) (\<lambda>hdr.
        rbind (PUT s1 ftr hdr) (\<lambda>s2.
        rbind (NEXT_BLKP s2 ptr) (\<lambda>nb.
        rbind (GET_SIZE s2 (HDRP nb)) (\<lambda>nsz.
        rbind (GET_ALLOC s2 (HDRP nb)) (\<lambda>nal.
        rbind (PUT s2 (HDRP nb) (PACK nsz nal)) (\<lambda>s3.
        rbind (seglist_add s3 ptr sz) (\<lambda>s4.
        rbind (coalesce s4 ptr) (\<lambda>(s5, bp). Inr s5)))))))))))))"

text \<open>\<^verbatim>\<open>realloc\<close> reads the header of \<^verbatim>\<open>oldptr\<close> before it tests \<^verbatim>\<open>oldptr\<close>.\<close>

definition realloc :: "state \<Rightarrow> addr \<Rightarrow> size_t \<Rightarrow> (state \<times> addr) res" where
  "realloc s oldptr sz =
     rbind (GET_SIZE s (HDRP oldptr)) (\<lambda>size_old.
       if oldptr = 0 then malloc s sz
       else if sz = 0 then rbind (free s oldptr) (\<lambda>s1. Inr (s1, 0))
       else
         rbind (malloc s (align sz)) (\<lambda>(s1, ptr).
           if ptr = 0 then Inr (s1, ptr)
           else
             rbind (if sz < size_old then memcpy s1 ptr oldptr sz
                    else memcpy s1 ptr oldptr size_old) (\<lambda>s2.
             rbind (free s2 oldptr) (\<lambda>s3.
             Inr (s3, ptr)))))"

definition calloc :: "state \<Rightarrow> size_t \<Rightarrow> size_t \<Rightarrow> (state \<times> addr) res" where
  "calloc s nmemb sz =
     (let sz' = sz * nmemb in
      rbind (malloc s sz') (\<lambda>(s1, ptr).
        if ptr \<noteq> 0 then rbind (memset s1 ptr 0 sz') (\<lambda>s2. Inr (s2, ptr))
        else Inr (s1, ptr)))"

definition in_heap :: "state \<Rightarrow> addr \<Rightarrow> bool" where
  "in_heap s p \<longleftrightarrow> p \<le> mm_heap_hi s \<and> p \<ge> mm_heap_lo s"

definition aligned :: "addr \<Rightarrow> bool" where
  "aligned p \<longleftrightarrow> align p = p"

subsection \<open>The heap checker\<close>

text \<open>
  The body of \<^verbatim>\<open>mm_checkheap\<close> is compiled only when \<^verbatim>\<open>DEBUG\<close> is defined; the model takes
  that compile-time switch as a parameter. The calls of \<^verbatim>\<open>dbg_printf\<close> print and change
  nothing. Each \<^verbatim>\<open>while\<close> loop follows links or sizes read from memory and may run forever.
\<close>

partial_function (option) check_list_free ::
  "state \<Rightarrow> addr \<Rightarrow> size_t \<Rightarrow> (bool \<times> size_t) res option" where
  "check_list_free s cur ct =
     (if cur = 0 then Some (Inr (True, ct))
      else
        case GET_ALLOC s (HDRP cur) of
          Inl e \<Rightarrow> Some (Inl e)
        | Inr a \<Rightarrow>
            if a \<noteq> 0 then Some (Inr (False, ct + 1))
            else
              case GET s (NEXT_FREE_ADDR cur) of
                Inl e \<Rightarrow> Some (Inl e)
              | Inr nxt \<Rightarrow> check_list_free s nxt (ct + 1))"

function check_lists_free :: "state \<Rightarrow> nat \<Rightarrow> size_t \<Rightarrow> (bool \<times> size_t) res" where
  "check_lists_free s i ct =
     (if i < SEGLIST_CLASSES then
        (case GET s (seg_class s i) of
           Inl e \<Rightarrow> Inl e
         | Inr cur \<Rightarrow>
             (case check_list_free s cur ct of
                None \<Rightarrow> Inl Diverges
              | Some (Inl e) \<Rightarrow> Inl e
              | Some (Inr (ok, ct')) \<Rightarrow>
                  if ok then check_lists_free s (i + 1) ct' else Inr (False, ct')))
      else Inr (True, ct))"
  by pat_completeness auto
termination
  by (relation "measure (\<lambda>(s, i, ct). SEGLIST_CLASSES - i)") auto

partial_function (option) count_heap_free ::
  "state \<Rightarrow> addr \<Rightarrow> size_t \<Rightarrow> size_t res option" where
  "count_heap_free s bp ct =
     (if bp = 0 then Some (Inr ct)
      else
        case GET_SIZE s (HDRP bp) of
          Inl e \<Rightarrow> Some (Inl e)
        | Inr sz \<Rightarrow>
            if sz = 0 then Some (Inr ct)
            else
              case GET_ALLOC s (HDRP bp) of
                Inl e \<Rightarrow> Some (Inl e)
              | Inr a \<Rightarrow>
                  (case NEXT_BLKP s bp of
                     Inl e \<Rightarrow> Some (Inl e)
                   | Inr nb \<Rightarrow> count_heap_free s nb (if a = 0 then ct + 1 else ct)))"

partial_function (option) check_list_valid :: "state \<Rightarrow> addr \<Rightarrow> bool res option" where
  "check_list_valid s cur =
     (if cur = 0 then Some (Inr True)
      else
        case GET_SIZE s (HDRP cur) of
          Inl e \<Rightarrow> Some (Inl e)
        | Inr sz \<Rightarrow>
            if sz = 0 \<or> cur > mm_heap_hi s \<or> cur < mm_heap_lo s then Some (Inr False)
            else
              case GET s (NEXT_FREE_ADDR cur) of
                Inl e \<Rightarrow> Some (Inl e)
              | Inr nxt \<Rightarrow> check_list_valid s nxt)"

function check_lists_valid :: "state \<Rightarrow> nat \<Rightarrow> bool res" where
  "check_lists_valid s i =
     (if i < SEGLIST_CLASSES then
        (case GET s (seg_class s i) of
           Inl e \<Rightarrow> Inl e
         | Inr cur \<Rightarrow>
             (case check_list_valid s cur of
                None \<Rightarrow> Inl Diverges
              | Some (Inl e) \<Rightarrow> Inl e
              | Some (Inr ok) \<Rightarrow> if ok then check_lists_valid s (i + 1) else Inr False))
      else Inr True)"
  by pat_completeness auto
termination
  by (relation "measure (\<lambda>(s, i). SEGLIST_CLASSES - i)") auto

partial_function (option) check_overlap :: "state \<Rightarrow> addr \<Rightarrow> bool res option" where
  "check_overlap s bp =
     (if bp = 0 then Some (Inr True)
      else
        case GET_SIZE s (HDRP bp) of
          Inl e \<Rightarrow> Some (Inl e)
        | Inr sz \<Rightarrow>
            if sz = 0 then Some (Inr True)
            else
              case GET_ALLOC s (HDRP bp) of
                Inl e \<Rightarrow> Some (Inl e)
              | Inr a \<Rightarrow>
                  (case NEXT_BLKP s bp of
                     Inl e \<Rightarrow> Some (Inl e)
                   | Inr nb \<Rightarrow>
                       if a \<noteq> 0 \<and> bp + sz - WSIZE \<ge> nb then Some (Inr False)
                       else check_overlap s nb))"

partial_function (option) check_heap_ptrs :: "state \<Rightarrow> addr \<Rightarrow> bool res option" where
  "check_heap_ptrs s bp =
     (if bp = 0 then Some (Inr True)
      else
        case GET_SIZE s (HDRP bp) of
          Inl e \<Rightarrow> Some (Inl e)
        | Inr sz \<Rightarrow>
            if sz = 0 then Some (Inr True)
            else if bp = 0 \<or> bp > mem_heap_hi s \<or> bp < mem_heap_lo s then Some (Inr False)
            else
              case NEXT_BLKP s bp of
                Inl e \<Rightarrow> Some (Inl e)
              | Inr nb \<Rightarrow> check_heap_ptrs s nb)"

definition mm_checkheap :: "bool \<Rightarrow> state \<Rightarrow> int \<Rightarrow> bool res" where
  "mm_checkheap DEBUG s lineno =
     (if DEBUG then
        rbind (check_lists_free s 0 0) (\<lambda>(ok1, seg_free_ct).
        if \<not> ok1 then Inr False
        else
          rbind (run_loop (count_heap_free s (heap_listp s) 0)) (\<lambda>heap_free_ct.
          if heap_free_ct \<noteq> seg_free_ct then Inr False
          else
            rbind (check_lists_valid s 0) (\<lambda>ok3.
            if \<not> ok3 then Inr False
            else
              rbind (run_loop (check_overlap s (heap_listp s))) (\<lambda>ok4.
              if \<not> ok4 then Inr False
              else
                rbind (run_loop (check_heap_ptrs s (heap_listp s))) (\<lambda>ok5.
                if \<not> ok5 then Inr False else Inr True)))))
      else Inr True)"

section \<open>Notions used to state the properties\<close>

text \<open>Two word accesses at \<open>p\<close> and \<open>q\<close> share no byte.\<close>

definition far :: "addr \<Rightarrow> addr \<Rightarrow> bool" where
  "far p q \<longleftrightarrow> 8 \<le> q - p \<and> 8 \<le> p - q"

section \<open>Example states\<close>

text \<open>
  A heap whose free list number 4 holds one block, at \<open>0x1100\<close>; all other words are zero.
\<close>

definition single_free_heap :: state where
  "single_free_heap =
     \<lparr>mem = store64 (\<lambda>a. 0) 0x1020 0x1100, mem_start_brk = 0x1000, mem_brk = 0x2000,
      mem_max_addr = 0x100000, heap_listp = 0x1080, seg_listp = 0x1000\<rparr>"

text \<open>
  A heap with a free block of 32 bytes at \<open>0x1100\<close>, alone in free list 0, followed by an
  allocated block of 48 bytes whose header has the prev-alloc bit clear.
\<close>

definition tight_fit_heap :: state where
  "tight_fit_heap =
     \<lparr>mem = store64 (store64 (store64 (\<lambda>a. 0) 0x1000 0x1100) 0x10F8 34) 0x1118 0x31,
      mem_start_brk = 0x1000, mem_brk = 0x2000,
      mem_max_addr = 0x100000, heap_listp = 0x1080, seg_listp = 0x1000\<rparr>"

section \<open>An abstract view of the heap\<close>

text \<open>
  Addresses inside the heap region are below \<open>2 ^ 64\<close>, so the proofs count them as natural
  numbers: \<open>wa n\<close> is the machine address \<open>n\<close>, \<open>rd s n\<close> the word stored at \<open>n\<close>, \<open>wr s n v\<close> the
  state after a word store, and \<open>vc s n\<close> says that the word at \<open>n\<close> lies in the region.
\<close>

definition wa :: "nat \<Rightarrow> 64 word" where
  "wa n = of_nat n"

definition rd :: "state \<Rightarrow> nat \<Rightarrow> 64 word" where
  "rd s n = load64 (mem s) (wa n)"

definition wr :: "state \<Rightarrow> nat \<Rightarrow> 64 word \<Rightarrow> state" where
  "wr s n v = s\<lparr>mem := store64 (mem s) (wa n) v\<rparr>"

definition vc :: "state \<Rightarrow> nat \<Rightarrow> bool" where
  "vc s n \<longleftrightarrow> unat (mem_start_brk s) \<le> n \<and> n + 8 \<le> unat (mem_brk s)"

text \<open>The three fields of a header or footer word.\<close>

definition szf :: "64 word \<Rightarrow> 64 word" where
  "szf w = w AND NOT 7"

definition alf :: "64 word \<Rightarrow> 64 word" where
  "alf w = w AND 1"

definition paf :: "64 word \<Rightarrow> 64 word" where
  "paf w = w AND 2"

text \<open>
  \<open>frame s s' W\<close>: the state \<open>s'\<close> differs from \<open>s\<close> at most in the bytes of the words at the
  addresses in \<open>W\<close>.
\<close>

definition frame :: "state \<Rightarrow> state \<Rightarrow> nat set \<Rightarrow> bool" where
  "frame s s' W \<longleftrightarrow>
     s' = s\<lparr>mem := mem s'\<rparr> \<and>
     (\<forall>x < 2 ^ 64. (\<forall>c\<in>W. x < c \<or> c + 8 \<le> x) \<longrightarrow> mem s' (wa x) = mem s (wa x))"

text \<open>The state that \<^verbatim>\<open>mm_init\<close> builds on a region that ends at \<open>b\<close>, written as its word stores.\<close>

definition zero_roots :: "state \<Rightarrow> nat \<Rightarrow> state" where
  "zero_roots s S = wr (wr (wr (wr (wr (wr (wr (wr (wr (wr (wr (wr s S 0) (S + 8) 0) (S + 16) 0)
     (S + 24) 0) (S + 32) 0) (S + 40) 0) (S + 48) 0) (S + 56) 0) (S + 64) 0) (S + 72) 0)
     (S + 80) 0) (S + 88) 0"

definition init_state :: "state \<Rightarrow> state" where
  "init_state s =
     (let b = unat (mem_brk s);
          s0 = s\<lparr>seg_listp := wa b, heap_listp := wa (b + 128), mem_brk := wa (b + 640)\<rparr>
      in wr (wr (wr (wr (wr (wr (wr (wr (wr (wr (zero_roots s0 b)
           (b + 96) 0) (b + 104) 17) (b + 112) 17) (b + 120) 3) (b + 120) 514) (b + 624) 514)
           (b + 32) (wa (b + 128))) (b + 128) 0) (b + 136) 0) (b + 632) 1)"

text \<open>
  The blocks of the region, as a walk from a payload address reads them: each entry is the
  payload address, the size field and the alloc bit of one block's header; the walk ends
  at a header whose size field is zero (the epilogue).
\<close>

fun blocks_at :: "state \<Rightarrow> addr \<Rightarrow> (addr \<times> size_t \<times> bool) list \<Rightarrow> bool" where
  "blocks_at s bp [] \<longleftrightarrow> GET_SIZE s (HDRP bp) = Inr 0"
| "blocks_at s bp ((a, sz, al) # bs) \<longleftrightarrow>
     a = bp \<and> sz \<noteq> 0 \<and> GET_SIZE s (HDRP bp) = Inr sz \<and>
     GET_ALLOC s (HDRP bp) = Inr (if al then 1 else 0) \<and> blocks_at s (bp + sz) bs"

text \<open>A region that the provider has just created: nothing handed out yet, all bytes zero.\<close>

definition fresh_heap :: state where
  "fresh_heap =
     \<lparr>mem = (\<lambda>a. 0), mem_start_brk = 0x1000, mem_brk = 0x1000, mem_max_addr = 0x100000,
      heap_listp = 0, seg_listp = 0\<rparr>"

text \<open>
  The free list that starts at \<open>p\<close>, as the list of its blocks in link order: the next link
  of each block leads to the following one, the last link is null.
\<close>

fun path :: "state \<Rightarrow> addr \<Rightarrow> addr list \<Rightarrow> bool" where
  "path s p [] \<longleftrightarrow> p = 0"
| "path s p (x # xs) \<longleftrightarrow>
     p = x \<and> x \<noteq> 0 \<and> (case GET s (NEXT_FREE_ADDR x) of Inl e \<Rightarrow> False | Inr nxt \<Rightarrow> path s nxt xs)"

definition bucket :: "state \<Rightarrow> nat \<Rightarrow> addr list \<Rightarrow> bool" where
  "bucket s i xs \<longleftrightarrow> (case GET s (seg_class s i) of Inl e \<Rightarrow> False | Inr p \<Rightarrow> path s p xs)"

text \<open>
  The scan of \<^verbatim>\<open>seglist_search\<close> over a list of blocks whose sizes are given by \<open>h\<close>: the
  candidate \<open>best\<close> and its slack \<open>diff\<close> are replaced by a block that fits with a strictly
  smaller slack, and a block of slack zero ends the scan.
\<close>

fun scan :: "(addr \<Rightarrow> size_t) \<Rightarrow> size_t \<Rightarrow> addr list \<Rightarrow> addr \<Rightarrow> size_t \<Rightarrow> addr" where
  "scan h sz [] best diff = best"
| "scan h sz (x # xs) best diff =
     (if sz \<le> h x \<and> (best = 0 \<or> diff > h x - sz) then
        (if h x - sz = 0 then x else scan h sz xs x (h x - sz))
      else scan h sz xs best diff)"

text \<open>
  A heap with four free blocks: one of 48 bytes in free list 1, and blocks of 128, 96 and
  80 bytes, in this order, in free list 2. The root of free list 3 is not an address of the
  region.
\<close>

definition best_fit_heap :: state where
  "best_fit_heap =
     \<lparr>mem = store64 (store64 (store64 (store64 (store64 (store64 (store64 (store64 (store64
         (\<lambda>a. 0) 0x1008 0x1400) 0x13F8 48) 0x1010 0x1100) 0x10F8 128) 0x1100 0x1200)
         0x11F8 96) 0x1200 0x1300) 0x12F8 80) 0x1018 0xDEAD0000,
      mem_start_brk = 0x1000, mem_brk = 0x2000, mem_max_addr = 0x100000,
      heap_listp = 0x1080, seg_listp = 0x1000\<rparr>"

definition best_fit_sizes :: "addr \<Rightarrow> size_t" where
  "best_fit_sizes x = (if x = 0x1100 then 128 else if x = 0x1200 then 96
     else if x = 0x1300 then 80 else 48)"

definition best_fit_lists :: "nat \<Rightarrow> addr list" where
  "best_fit_lists k = (if k = 1 then [0x1400] else [0x1100, 0x1200, 0x1300])"

subsection \<open>Free lists, abstractly\<close>

text \<open>
  The free lists as functions on block addresses (0 stands for null): \<open>R i\<close> is the root of
  list \<open>i\<close>, \<open>N a\<close> and \<open>P a\<close> are the next and prev links of block \<open>a\<close>, \<open>cls a\<close> is the list
  that \<open>a\<close> belongs to. \<open>lists F cls R N P\<close> says that the blocks of \<open>F\<close> form doubly linked
  lists: a root has no predecessor, a block without predecessor is the root of its list,
  and next and prev are inverse to each other inside one list.
\<close>

definition lists ::
  "nat set \<Rightarrow> (nat \<Rightarrow> nat) \<Rightarrow> (nat \<Rightarrow> nat) \<Rightarrow> (nat \<Rightarrow> nat) \<Rightarrow> (nat \<Rightarrow> nat) \<Rightarrow> bool" where
  "lists F cls R N P \<longleftrightarrow>
     0 \<notin> F \<and>
     (\<forall>i<12. R i \<noteq> 0 \<longrightarrow> R i \<in> F \<and> cls (R i) = i \<and> P (R i) = 0) \<and>
     (\<forall>a\<in>F. cls a < 12 \<and> (P a = 0 \<longrightarrow> R (cls a) = a) \<and>
        (N a \<noteq> 0 \<longrightarrow> N a \<in> F \<and> cls (N a) = cls a \<and> P (N a) = a) \<and>
        (P a \<noteq> 0 \<longrightarrow> P a \<in> F \<and> cls (P a) = cls a \<and> N (P a) = a))"

text \<open>The effect of \<^verbatim>\<open>seglist_delete\<close> and of \<^verbatim>\<open>seglist_add\<close> on the roots and the links.\<close>

definition del_R :: "(nat \<Rightarrow> nat) \<Rightarrow> (nat \<Rightarrow> nat) \<Rightarrow> (nat \<Rightarrow> nat) \<Rightarrow> (nat \<Rightarrow> nat) \<Rightarrow> nat \<Rightarrow> (nat \<Rightarrow> nat)" where
  "del_R cls R N P a = (if P a = 0 then R(cls a := N a) else R)"

definition del_N :: "(nat \<Rightarrow> nat) \<Rightarrow> (nat \<Rightarrow> nat) \<Rightarrow> nat \<Rightarrow> (nat \<Rightarrow> nat)" where
  "del_N N P a = (if P a \<noteq> 0 then N(P a := N a) else N)"

definition del_P :: "(nat \<Rightarrow> nat) \<Rightarrow> (nat \<Rightarrow> nat) \<Rightarrow> nat \<Rightarrow> (nat \<Rightarrow> nat)" where
  "del_P N P a = (if N a \<noteq> 0 then P(N a := P a) else P)"

definition add_R :: "(nat \<Rightarrow> nat) \<Rightarrow> nat \<Rightarrow> nat \<Rightarrow> (nat \<Rightarrow> nat)" where
  "add_R R c a = R(c := a)"

definition add_N :: "(nat \<Rightarrow> nat) \<Rightarrow> (nat \<Rightarrow> nat) \<Rightarrow> nat \<Rightarrow> nat \<Rightarrow> (nat \<Rightarrow> nat)" where
  "add_N N R c a = N(a := R c)"

definition add_P :: "(nat \<Rightarrow> nat) \<Rightarrow> (nat \<Rightarrow> nat) \<Rightarrow> nat \<Rightarrow> nat \<Rightarrow> (nat \<Rightarrow> nat)" where
  "add_P P R c a = (if R c \<noteq> 0 then P(a := 0, R c := a) else P(a := 0))"

subsection \<open>Free lists in memory\<close>

text \<open>
  \<open>lst_rep s F R N P\<close>: the memory of \<open>s\<close> holds the roots \<open>R\<close> in the index and the links \<open>N\<close>
  and \<open>P\<close> in the first two payload words of the blocks of \<open>F\<close>; these words lie in the
  region, after the index, and the link words of two blocks do not overlap.
\<close>

definition lst_rep ::
  "state \<Rightarrow> nat set \<Rightarrow> (nat \<Rightarrow> nat) \<Rightarrow> (nat \<Rightarrow> nat) \<Rightarrow> (nat \<Rightarrow> nat) \<Rightarrow> bool" where
  "lst_rep s F R N P \<longleftrightarrow>
     (\<forall>i<12. vc s (unat (seg_listp s) + 8 * i) \<and> rd s (unat (seg_listp s) + 8 * i) = wa (R i)) \<and>
     (\<forall>a\<in>F. unat (seg_listp s) + 96 \<le> a \<and> vc s a \<and> vc s (a + 8) \<and>
        rd s a = wa (N a) \<and> rd s (a + 8) = wa (P a)) \<and>
     (\<forall>a\<in>F. \<forall>b\<in>F. a \<noteq> b \<longrightarrow> a + 16 \<le> b \<or> b + 16 \<le> a)"

text \<open>The words of the index and the link words of the blocks of \<open>F\<close>.\<close>

definition lcells :: "nat \<Rightarrow> nat set \<Rightarrow> nat set" where
  "lcells S F = {S + 8 * i | i. i < 12} \<union> F \<union> {a + 8 | a. a \<in> F}"

text \<open>
  \<open>fl s F cls\<close>: the memory of \<open>s\<close> holds well-formed doubly linked lists whose blocks are
  exactly those of \<open>F\<close>, block \<open>a\<close> in list \<open>cls a\<close>. A rank that decreases along the next
  links says that no list runs into a cycle.
\<close>

definition fl :: "state \<Rightarrow> nat set \<Rightarrow> (nat \<Rightarrow> nat) \<Rightarrow> bool" where
  "fl s F cls \<longleftrightarrow>
     (\<exists>R N P rk. lists F cls R N P \<and> lst_rep s F R N P \<and>
        (\<forall>a\<in>F. N a \<noteq> 0 \<longrightarrow> (rk (N a) :: nat) < rk a))"

section \<open>The heap invariant\<close>

text \<open>
  The blocks of the heap are described by the set \<open>B\<close> of their payload addresses, their
  sizes \<open>sz\<close> and their allocation state \<open>al\<close>. \<open>tiling H E B sz\<close>: the blocks cover the
  addresses from the first payload address \<open>H\<close> to the end \<open>E\<close> of the region without gap
  and without overlap; every size is a multiple of 16 and at least 32.
\<close>

definition tiling :: "nat \<Rightarrow> nat \<Rightarrow> nat set \<Rightarrow> (nat \<Rightarrow> nat) \<Rightarrow> bool" where
  "tiling H E B sz \<longleftrightarrow>
     H \<in> B \<and>
     (\<forall>a\<in>B. H \<le> a \<and> 32 \<le> sz a \<and> 16 dvd sz a \<and> a + sz a \<le> E \<and>
        (a + sz a = E \<or> a + sz a \<in> B)) \<and>
     (\<forall>a\<in>B. \<forall>b\<in>B. a < b \<longrightarrow> a + sz a \<le> b)"

text \<open>The block that ends at \<open>a\<close>, if there is one, is allocated.\<close>

definition pal :: "nat set \<Rightarrow> (nat \<Rightarrow> nat) \<Rightarrow> (nat \<Rightarrow> bool) \<Rightarrow> nat \<Rightarrow> bool" where
  "pal B sz al a \<longleftrightarrow> (\<forall>b\<in>B. b + sz b = a \<longrightarrow> al b)"

text \<open>
  \<open>hd_ok s a n al pa\<close>: the header of the block at \<open>a\<close> holds the size \<open>n\<close>, the alloc bit \<open>al\<close>
  and the prev-alloc bit \<open>pa\<close>; a free block repeats its size in its footer.
\<close>

definition hd_ok :: "state \<Rightarrow> nat \<Rightarrow> nat \<Rightarrow> bool \<Rightarrow> bool \<Rightarrow> bool" where
  "hd_ok s a n al pa \<longleftrightarrow>
     szf (rd s (a - 8)) = wa n \<and> (alf (rd s (a - 8)) \<noteq> 0 \<longleftrightarrow> al) \<and>
     (paf (rd s (a - 8)) \<noteq> 0 \<longleftrightarrow> pa) \<and> (\<not> al \<longrightarrow> szf (rd s (a + n - 16)) = wa n)"

text \<open>
  The headers in memory: \<open>hon X s B sz al\<close> says that the headers of the blocks of \<open>X\<close> are
  those of the heap \<open>B\<close>, \<open>sz\<close>, \<open>al\<close>; \<open>hepi\<close> describes the epilogue header at the end of the
  region, a header of size zero with the alloc bit set.
\<close>

definition hon :: "nat set \<Rightarrow> state \<Rightarrow> nat set \<Rightarrow> (nat \<Rightarrow> nat) \<Rightarrow> (nat \<Rightarrow> bool) \<Rightarrow> bool" where
  "hon X s B sz al \<longleftrightarrow> (\<forall>a\<in>X. hd_ok s a (sz a) (al a) (pal B sz al a))"

definition hepi :: "state \<Rightarrow> nat set \<Rightarrow> (nat \<Rightarrow> nat) \<Rightarrow> (nat \<Rightarrow> bool) \<Rightarrow> bool" where
  "hepi s B sz al \<longleftrightarrow> hd_ok s (unat (mem_brk s)) 0 True (pal B sz al (unat (mem_brk s)))"

text \<open>The list that a block of size \<open>sz a\<close> belongs to.\<close>

definition cls_of :: "(nat \<Rightarrow> nat) \<Rightarrow> nat \<Rightarrow> nat" where
  "cls_of sz a = get_segclass_ind (wa (sz a))"

text \<open>
  \<open>winv\<close>: the index starts the region, the first payload address follows it after 128
  bytes, the blocks tile the heap, the headers describe them, and the free lists hold
  exactly the free blocks, each in the list of its size.
\<close>

definition winv :: "state \<Rightarrow> nat set \<Rightarrow> (nat \<Rightarrow> nat) \<Rightarrow> (nat \<Rightarrow> bool) \<Rightarrow> bool" where
  "winv s B sz al \<longleftrightarrow>
     seg_listp s = mem_start_brk s \<and>
     unat (heap_listp s) = unat (seg_listp s) + 128 \<and>
     tiling (unat (heap_listp s)) (unat (mem_brk s)) B sz \<and>
     hon B s B sz al \<and> hepi s B sz al \<and>
     fl s {a \<in> B. \<not> al a} (cls_of sz)"

text \<open>No free block is followed by a free block.\<close>

definition nfa :: "nat set \<Rightarrow> (nat \<Rightarrow> nat) \<Rightarrow> (nat \<Rightarrow> bool) \<Rightarrow> bool" where
  "nfa B sz al \<longleftrightarrow> (\<forall>a\<in>B. \<not> al a \<longrightarrow> a + sz a \<in> B \<longrightarrow> al (a + sz a))"

definition inv :: "state \<Rightarrow> nat set \<Rightarrow> (nat \<Rightarrow> nat) \<Rightarrow> (nat \<Rightarrow> bool) \<Rightarrow> bool" where
  "inv s B sz al \<longleftrightarrow> winv s B sz al \<and> nfa B sz al"

text \<open>
  The word at \<open>c\<close> shares no byte with the payload of an allocated block; the allocator
  keeps all its own data in such words.
\<close>

definition safe :: "nat set \<Rightarrow> (nat \<Rightarrow> nat) \<Rightarrow> (nat \<Rightarrow> bool) \<Rightarrow> nat \<Rightarrow> bool" where
  "safe B sz al c \<longleftrightarrow> (\<forall>a\<in>B. al a \<longrightarrow> c + 8 \<le> a \<or> a + sz a - 8 \<le> c)"

text \<open>\<open>keeps s s' B sz al\<close>: the payload bytes of the allocated blocks are the same in \<open>s\<close> and \<open>s'\<close>.\<close>

definition keeps :: "state \<Rightarrow> state \<Rightarrow> nat set \<Rightarrow> (nat \<Rightarrow> nat) \<Rightarrow> (nat \<Rightarrow> bool) \<Rightarrow> bool" where
  "keeps s s' B sz al \<longleftrightarrow>
     (\<forall>a\<in>B. al a \<longrightarrow> (\<forall>x. a \<le> x \<and> x + 8 < a + sz a \<longrightarrow> mem s' (wa x) = mem s (wa x)))"

section \<open>Memory accesses\<close>

lemma rbind_Inl [simp]: "rbind (Inl e) f = Inl e"
  by (simp add: rbind_def)

lemma rbind_Inr [simp]: "rbind (Inr x) f = f x"
  by (simp add: rbind_def)

lemma rbind_eq_Inr: "rbind m f = Inr y \<longleftrightarrow> (\<exists>x. m = Inr x \<and> f x = Inr y)"
  by (cases m) simp_all

lemma bit_byte: "bit (ucast (byte_of v i) :: 64 word) n \<longleftrightarrow> n < 8 \<and> bit v (8 * i + n)"
  by (auto simp: byte_of_def bit_simps ac_simps)

lemma bit_push_byte:
  "bit (push_bit (8 * i) (ucast (byte_of v i)) :: 64 word) n \<longleftrightarrow>
     8 * i \<le> n \<and> n < 8 * i + 8 \<and> n < 64 \<and> bit v n"
  by (auto simp: bit_push_bit_iff bit_byte)

lemma join_bytes: "join8 (byte_of v) = v"
proof (rule bit_eqI)
  fix n assume "possible_bit TYPE(64 word) n"
  then have n: "n < 64" by simp
  then consider "n < 8" | "8 \<le> n" "n < 16" | "16 \<le> n" "n < 24" | "24 \<le> n" "n < 32"
    | "32 \<le> n" "n < 40" | "40 \<le> n" "n < 48" | "48 \<le> n" "n < 56" | "56 \<le> n" "n < 64"
    by linarith
  then show "bit (join8 (byte_of v)) n = bit v n"
    using bit_push_byte[of 1 v n] bit_push_byte[of 2 v n] bit_push_byte[of 3 v n]
      bit_push_byte[of 4 v n] bit_push_byte[of 5 v n] bit_push_byte[of 6 v n]
      bit_push_byte[of 7 v n] n
    by cases (simp_all add: join8_def bit_or_iff bit_byte)
qed

lemma load_store_same: "load64 (store64 m p v) p = v"
proof -
  have "join8 (\<lambda>i. store64 m p v (p + of_nat i)) = join8 (byte_of v)"
    unfolding join8_def store64_def by simp
  then show ?thesis by (simp add: load64_def join_bytes)
qed

lemma unat_sub64:
  fixes x y :: "64 word"
  shows "unat (x - y) = (if unat y \<le> unat x then unat x - unat y else unat x + 2 ^ 64 - unat y)"
  using unat_sub_if'[of x y] by simp

lemma unat_add64:
  fixes x y :: "64 word"
  shows "unat (x + y) = (if unat x + unat y < 2 ^ 64 then unat x + unat y else unat x + unat y - 2 ^ 64)"
  using unat_plus_if'[of x y] by simp

lemma unat_of_nat64: "n < 2 ^ 64 \<Longrightarrow> unat (of_nat n :: 64 word) = n"
  by (simp add: unat_of_nat)

lemma far_unat:
  fixes x y :: "64 word"
  shows "far x y \<longleftrightarrow> (unat x + 8 \<le> unat y \<and> unat y + 8 \<le> 2 ^ 64 + unat x) \<or>
     (unat y + 8 \<le> unat x \<and> unat x + 8 \<le> 2 ^ 64 + unat y)"
  using unsigned_less[of x, where 'a=nat] unsigned_less[of y, where 'a=nat]
  by (auto simp: far_def word_le_nat_alt unat_sub64)

lemma far_sym: "far p q \<longleftrightarrow> far q p"
  by (auto simp: far_def)

lemma far_add_left [simp]: "far (b + x) (b + y) \<longleftrightarrow> far x y"
  by (simp add: far_def)

lemma far_byte:
  fixes p q k :: "64 word"
  assumes "far p q" "k < 8"
  shows "\<not> (q + k - p < 8)"
proof -
  have k: "unat k < 8" using assms(2) by (simp add: word_less_nat_alt)
  have "unat (q + k - p) \<ge> 8"
    using assms(1) k unsigned_less[of p, where 'a=nat] unsigned_less[of q, where 'a=nat]
    by (auto simp: far_unat unat_sub64 unat_add64 split: if_splits)
  then show ?thesis by (simp add: word_less_nat_alt)
qed

lemma load_store_far:
  assumes "far p q"
  shows "load64 (store64 m p v) q = load64 m q"
proof -
  have "store64 m p v (q + of_nat i) = m (q + of_nat i)" if "i < 8" for i :: nat
  proof -
    have "(of_nat i :: 64 word) < 8" using that by (simp add: word_less_nat_alt unat_of_nat)
    from far_byte[OF assms this] show ?thesis by (simp add: store64_def)
  qed
  from this[of 0] this[of 1] this[of 2] this[of 3] this[of 4] this[of 5] this[of 6] this[of 7]
  show ?thesis unfolding load64_def join8_def by simp
qed

lemma load64_zero [simp]: "load64 (\<lambda>a. 0) p = 0"
  by (simp add: load64_def join8_def)

lemma valid_mem_upd [simp]: "valid (s\<lparr>mem := m\<rparr>) p n = valid s p n"
  by (simp add: valid_def)

lemma seg_class_mem_upd [simp]: "seg_class (s\<lparr>mem := m\<rparr>) i = seg_class s i"
  by (simp add: seg_class_def)

lemma GET_eq_Inr: "GET s p = Inr w \<longleftrightarrow> valid s p 8 \<and> w = load64 (mem s) p"
  by (auto simp: GET_def)

lemma PUT_eq_Inr:
  "PUT s p v = Inr s' \<longleftrightarrow> valid s p 8 \<and> s' = s\<lparr>mem := store64 (mem s) p v\<rparr>"
  by (auto simp: PUT_def)

lemma GET_PUT_same: "valid s p 8 \<Longrightarrow> GET (s\<lparr>mem := store64 (mem s) p v\<rparr>) p = Inr v"
  by (simp add: GET_def load_store_same)

lemma GET_PUT_far: "far p q \<Longrightarrow> GET (s\<lparr>mem := store64 (mem s) p v\<rparr>) q = GET s q"
  by (simp add: GET_def load_store_far)

lemma far_seg_class:
  assumes "i < 12" "j < 12" "i \<noteq> j"
  shows "far (seg_class s i) (seg_class s j)"
proof -
  have *: "far (of_nat (8 * x) :: 64 word) (of_nat (8 * y))" if "x < y" "y < 12" for x y :: nat
  proof -
    have ux: "unat (of_nat (8 * x) :: 64 word) = 8 * x"
      by (rule unat_of_nat64) (use that in simp)
    have uy: "unat (of_nat (8 * y) :: 64 word) = 8 * y"
      by (rule unat_of_nat64) (use that in simp)
    show ?thesis unfolding far_unat ux uy using that by simp
  qed
  from assms consider "i < j" | "j < i" by linarith
  then show ?thesis
  proof cases
    case 1
    from *[OF 1 assms(2)] show ?thesis
      by (simp add: seg_class_def WSIZE_def mult.commute)
  next
    case 2
    from *[OF 2 assms(1)] have "far (of_nat (8 * i) :: 64 word) (of_nat (8 * j))"
      by (simp add: far_sym)
    then show ?thesis
      by (simp add: seg_class_def WSIZE_def mult.commute)
  qed
qed

section \<open>Resizing a null pointer\<close>

lemma null_header_invalid: "\<not> valid s (- 8) 8"
proof -
  have "unat (mem_brk s) < 2 ^ 64" using unsigned_less[of "mem_brk s", where 'a=nat] by simp
  moreover have "unat (- 8 :: 64 word) = 2 ^ 64 - 8" by simp
  ultimately show ?thesis by (simp add: valid_def)
qed

text \<open>
  C2. \<^verbatim>\<open>realloc\<close> reads the size field of the header of \<^verbatim>\<open>oldptr\<close> on its first line,
  before the test for null. With a null \<^verbatim>\<open>oldptr\<close> this is a read of the word at address
  \<open>0 - 8\<close>, which no heap region contains: for every state and every size the call ends
  in an invalid access at that address, where \<^verbatim>\<open>malloc\<close> would have run.
\<close>

theorem realloc_null_reads_header: "realloc s 0 n = Inl (Segfault (- 8))"
  by (simp add: realloc_def GET_SIZE_def HDRP_def WSIZE_def GET_def null_header_invalid)

section \<open>The heap checker in the production build\<close>

text \<open>
  C10. Compiled without \<^verbatim>\<open>DEBUG\<close>, \<^verbatim>\<open>mm_checkheap\<close> has no body but \<^verbatim>\<open>return true\<close>: it
  returns true for every heap state and every line hint, whatever the state looks like.
\<close>

theorem mm_checkheap_production: "mm_checkheap False s lineno = Inr True"
  by (simp add: mm_checkheap_def)

section \<open>Unlinking the only element of a free list\<close>

text \<open>
  C6. When both free-list links of block \<open>bp\<close> are null, \<^verbatim>\<open>seglist_delete\<close> writes one word, the
  root of the list of the class of \<open>sz\<close>, which becomes null. The roots of the other lists,
  every word that shares no byte with that root (so the links of every other free block)
  and every byte outside it keep their values, and so do the globals.
\<close>

theorem seglist_delete_only_element:
  assumes "GET s (NEXT_FREE_ADDR bp) = Inr 0" and "GET s (PREV_FREE_ADDR bp) = Inr 0"
    and "valid s (seg_class s (get_segclass_ind sz)) 8"
  shows "\<exists>s'. seglist_delete s bp sz = Inr s' \<and>
           GET s' (seg_class s' (get_segclass_ind sz)) = Inr 0 \<and>
           (\<forall>i < SEGLIST_CLASSES. i \<noteq> get_segclass_ind sz \<longrightarrow>
              GET s' (seg_class s' i) = GET s (seg_class s i)) \<and>
           (\<forall>q. far (seg_class s (get_segclass_ind sz)) q \<longrightarrow> GET s' q = GET s q) \<and>
           (\<forall>a. \<not> a - seg_class s (get_segclass_ind sz) < 8 \<longrightarrow> mem s' a = mem s a) \<and>
           s'\<lparr>mem := mem s\<rparr> = s"
proof -
  let ?c = "seg_class s (get_segclass_ind sz)"
  let ?s' = "s\<lparr>mem := store64 (mem s) ?c 0\<rparr>"
  have ind: "get_segclass_ind sz < 12"
    by (simp add: get_segclass_ind_def)
  have del: "seglist_delete s bp sz = Inr ?s'"
    using assms by (simp add: seglist_delete_def Let_def PUT_ADDR_def PUT_def)
  have root: "GET ?s' (seg_class ?s' (get_segclass_ind sz)) = Inr 0"
    using assms(3) by (simp add: GET_PUT_same)
  have others: "GET ?s' (seg_class ?s' i) = GET s (seg_class s i)"
    if "i < SEGLIST_CLASSES" "i \<noteq> get_segclass_ind sz" for i
    using that ind far_seg_class[of "get_segclass_ind sz" i s]
    by (simp add: SEGLIST_CLASSES_def GET_PUT_far)
  have frame: "GET ?s' q = GET s q" if "far ?c q" for q
    using that by (simp add: GET_PUT_far)
  have bytes: "mem ?s' a = mem s a" if "\<not> a - ?c < 8" for a
    using that by (simp add: store64_def)
  show ?thesis
    using del root others frame bytes by (intro exI[of _ ?s']) simp
qed

theorem seglist_delete_only_element_witness:
  "GET single_free_heap (NEXT_FREE_ADDR 0x1100) = Inr 0 \<and>
   GET single_free_heap (PREV_FREE_ADDR 0x1100) = Inr 0 \<and>
   valid single_free_heap (seg_class single_free_heap (get_segclass_ind 512)) 8 \<and>
   GET single_free_heap (seg_class single_free_heap (get_segclass_ind 512)) = Inr 0x1100 \<and>
   (\<exists>s'. seglist_delete single_free_heap 0x1100 512 = Inr s' \<and>
      GET s' (seg_class s' (get_segclass_ind 512)) = Inr 0 \<and>
      GET s' (seg_class s' 3) = GET single_free_heap (seg_class single_free_heap 3) \<and>
      GET s' 0x1100 = GET single_free_heap 0x1100)"
proof -
  have v: "valid single_free_heap (seg_class single_free_heap (get_segclass_ind 512)) 8"
    by (simp add: single_free_heap_def valid_def seg_class_def get_segclass_ind_def WSIZE_def)
  have c: "seg_class single_free_heap (get_segclass_ind 512) = 0x1020"
    by (simp add: single_free_heap_def seg_class_def get_segclass_ind_def WSIZE_def)
  have f: "far (0x1020 :: 64 word) 0x1100" "far (0x1020 :: 64 word) 0x1108"
    by (simp_all add: far_def)
  have n: "GET single_free_heap (NEXT_FREE_ADDR 0x1100) = Inr 0"
    using f by (simp add: single_free_heap_def GET_def valid_def NEXT_FREE_ADDR_def load_store_far)
  have p: "GET single_free_heap (PREV_FREE_ADDR 0x1100) = Inr 0"
    using f by (simp add: single_free_heap_def GET_def valid_def PREV_FREE_ADDR_def WSIZE_def load_store_far)
  have r: "GET single_free_heap (seg_class single_free_heap (get_segclass_ind 512)) = Inr 0x1100"
    unfolding c by (simp add: single_free_heap_def GET_def valid_def load_store_same)
  from seglist_delete_only_element[OF n p v]
  obtain s' where s': "seglist_delete single_free_heap 0x1100 512 = Inr s'"
    "GET s' (seg_class s' (get_segclass_ind 512)) = Inr 0"
    "\<forall>i < SEGLIST_CLASSES. i \<noteq> get_segclass_ind 512 \<longrightarrow>
        GET s' (seg_class s' i) = GET single_free_heap (seg_class single_free_heap i)"
    "\<forall>q. far (seg_class single_free_heap (get_segclass_ind 512)) q \<longrightarrow> GET s' q = GET single_free_heap q"
    by blast
  have "GET s' (seg_class s' 3) = GET single_free_heap (seg_class single_free_heap 3)"
    using s'(3) by (simp add: SEGLIST_CLASSES_def get_segclass_ind_def)
  moreover have "GET s' 0x1100 = GET single_free_heap 0x1100"
    using s'(4) f(1) unfolding c by simp
  ultimately show ?thesis using n p v r s'(1,2) by blast
qed

section \<open>Placing without a split\<close>

lemma seven_mask: "(7 :: 64 word) = mask 3"
  by (simp add: mask_eq_exp_minus_1)

lemma and_not7: "(w :: 64 word) AND NOT 7 = push_bit 3 (drop_bit 3 w)"
  unfolding seven_mask
  by (rule bit_eqI) (auto simp: bit_simps)

lemma unat_and_not7: "unat ((w :: 64 word) AND NOT 7) = 8 * (unat w div 8)"
proof -
  have "unat (drop_bit 3 w) = unat w div 8"
    by (simp add: unat_drop_bit_eq drop_bit_eq_div unat_div)
  moreover have "unat w div 8 < 2 ^ 61"
    using unsigned_less[of w, where 'a=nat] by simp
  ultimately show ?thesis
    unfolding and_not7 by (simp add: unat_word_ariths push_bit_eq_mult)
qed

lemma size_field_far:
  assumes "c = (w :: 64 word) AND NOT 7" "c \<noteq> 0"
  shows "far (p - 8) (p + c - 8)"
proof -
  have u: "unat c = 8 * (unat w div 8)" unfolding assms(1) by (rule unat_and_not7)
  have "unat c \<noteq> 0" using assms(2) by (simp add: unat_eq_0)
  with u have 1: "8 \<le> unat c" by (cases "unat w div 8") auto
  have "unat w < 2 ^ 64" using unsigned_less[of w, where 'a=nat] by simp
  with u have 2: "unat c + 8 \<le> 2 ^ 64" by simp
  have "far 0 c" using 1 2 by (simp add: far_unat)
  then have "far (p - 8 + 0) (p - 8 + c)" by (simp only: far_add_left)
  then show ?thesis by (simp add: algebra_simps)
qed


lemma pack_size_field:
  assumes "c = (w :: 64 word) AND NOT 7"
  shows "PACK c (PACK (w' AND 2) 1) AND NOT 7 = c"
  unfolding assms PACK_def
  by (rule bit_eqI) (auto simp: bit_simps)

lemma or2_fields:
  fixes w :: "64 word"
  shows "PACK w 2 AND 2 = 2" "PACK w 2 AND NOT 7 = w AND NOT 7" "PACK w 2 AND 1 = w AND 1"
  unfolding PACK_def
  by (rule bit_eqI; auto simp: bit_simps)+

lemma GET_store_far: "far p q \<Longrightarrow> GET (s\<lparr>mem := store64 m p v\<rparr>) q = GET (s\<lparr>mem := m\<rparr>) q"
  by (simp add: GET_def load_store_far)

lemma GET_store_same: "valid s p 8 \<Longrightarrow> GET (s\<lparr>mem := store64 m p v\<rparr>) p = Inr v"
  by (simp add: GET_def load_store_same)

lemma seglist_delete_frame:
  assumes links: "GET s (NEXT_FREE_ADDR bp) = Inr nx" "GET s (PREV_FREE_ADDR bp) = Inr pv"
    and root_far: "far (seg_class s (get_segclass_ind sz)) q"
    and next_far: "nx \<noteq> 0 \<Longrightarrow> far (PREV_FREE_ADDR nx) q"
    and prev_far: "pv \<noteq> 0 \<Longrightarrow> far (NEXT_FREE_ADDR pv) q"
    and run: "seglist_delete s bp sz = Inr s1"
  shows "GET s1 q = GET s q"
  using assms
  by (auto simp: seglist_delete_def Let_def PUT_ADDR_def PUT_eq_Inr rbind_eq_Inr GET_store_far
      split: if_splits)

text \<open>
  C7. \<^verbatim>\<open>place\<close> on a block \<open>bp\<close> of size \<open>csize\<close> with \<open>csize - asize < 32\<close> does not split. If the
  words that the unlinking writes (the root of the list, the prev link of the successor of
  \<open>bp\<close> in its list, the next link of its predecessor) are not the header of the block that
  follows \<open>bp\<close>, that header ends as its old value with the prev-alloc bit set: the
  prev-alloc bit is 1, the size field and the alloc bit are the ones from before the call.
\<close>

theorem place_no_split_next_header:
  assumes csize: "GET_SIZE s (HDRP bp) = Inr csize"
    and nosplit: "\<not> csize - asize \<ge> 2 * DSIZE"
    and nz: "csize \<noteq> 0"
    and links: "GET s (NEXT_FREE_ADDR bp) = Inr nx" "GET s (PREV_FREE_ADDR bp) = Inr pv"
    and before: "GET s (HDRP (bp + csize)) = Inr w0"
    and root_far: "far (seg_class s (get_segclass_ind csize)) (HDRP (bp + csize))"
    and next_far: "nx \<noteq> 0 \<Longrightarrow> far (PREV_FREE_ADDR nx) (HDRP (bp + csize))"
    and prev_far: "pv \<noteq> 0 \<Longrightarrow> far (NEXT_FREE_ADDR pv) (HDRP (bp + csize))"
    and run: "place s bp asize = Inr s'"
  shows "\<exists>w. GET s' (HDRP (bp + csize)) = Inr w \<and> w AND 2 = 2 \<and>
           w AND NOT 7 = w0 AND NOT 7 \<and> w AND 1 = w0 AND 1"
proof -
  let ?nh = "HDRP (bp + csize)"
  from csize obtain hw where hw: "GET s (HDRP bp) = Inr hw" "csize = hw AND NOT 7"
    by (auto simp: GET_SIZE_def rbind_eq_Inr)
  from run csize nosplit obtain s1 pa s2 nb w where
    s1: "seglist_delete s bp csize = Inr s1" and
    pa: "PREV_ALLOC s1 (HDRP bp) = Inr pa" and
    s2: "PUT s1 (HDRP bp) (PACK csize (PACK pa 1)) = Inr s2" and
    nb: "NEXT_BLKP s2 bp = Inr nb" and
    w: "GET s2 (HDRP nb) = Inr w" and
    s': "PUT s2 (HDRP nb) (PACK w 2) = Inr s'"
    by (auto simp: place_def rbind_eq_Inr)
  have 1: "GET s1 ?nh = Inr w0"
    using seglist_delete_frame[OF links root_far next_far prev_far s1] before by simp
  from pa obtain w' where pa': "pa = w' AND 2"
    by (auto simp: PREV_ALLOC_def rbind_eq_Inr)
  have hfar: "far (HDRP bp) ?nh"
    using size_field_far[OF hw(2) nz, of bp] by (simp add: HDRP_def WSIZE_def)
  from s2 have s2': "valid s1 (HDRP bp) 8"
    "s2 = s1\<lparr>mem := store64 (mem s1) (HDRP bp) (PACK csize (PACK pa 1))\<rparr>"
    by (simp_all add: PUT_eq_Inr)
  have "GET s2 (HDRP bp) = Inr (PACK csize (PACK pa 1))"
    unfolding s2'(2) using s2'(1) by (rule GET_PUT_same)
  then have "GET_SIZE s2 (HDRP bp) = Inr csize"
    using pack_size_field[OF hw(2), of w'] by (simp add: GET_SIZE_def pa')
  with nb have nb': "nb = bp + csize"
    by (simp add: NEXT_BLKP_def HDRP_def)
  have 2: "GET s2 ?nh = Inr w0"
    unfolding s2'(2) using 1 hfar by (simp add: GET_PUT_far)
  with w nb' have ww: "w = w0" by simp
  from s' have "GET s' ?nh = Inr (PACK w0 2)"
    unfolding nb' ww by (auto simp: PUT_eq_Inr GET_PUT_same)
  then show ?thesis using or2_fields[of w0] by simp
qed

lemma tight_place: "\<exists>s'. place tight_fit_heap 0x1100 32 = Inr s'"
  by (simp add: place_def tight_fit_heap_def GET_SIZE_def HDRP_def WSIZE_def DSIZE_def GET_def valid_def
     load_store_same load_store_far far_def seglist_delete_def NEXT_FREE_ADDR_def PREV_FREE_ADDR_def
     get_segclass_ind_def seg_class_def PUT_ADDR_def PUT_def PREV_ALLOC_def NEXT_BLKP_def PACK_def)


theorem place_no_split_next_header_witness:
  "GET_SIZE tight_fit_heap (HDRP 0x1100) = Inr 32 \<and> \<not> (32 :: 64 word) - 32 \<ge> 2 * DSIZE \<and>
   GET tight_fit_heap (NEXT_FREE_ADDR 0x1100) = Inr 0 \<and>
   GET tight_fit_heap (PREV_FREE_ADDR 0x1100) = Inr 0 \<and>
   GET tight_fit_heap (HDRP (0x1100 + 32)) = Inr 0x31 \<and>
   far (seg_class tight_fit_heap (get_segclass_ind 32)) (HDRP (0x1100 + 32)) \<and>
   (\<exists>s'. place tight_fit_heap 0x1100 32 = Inr s' \<and>
      (\<exists>w. GET s' (HDRP (0x1100 + 32)) = Inr w \<and> w AND 2 = 2 \<and>
         w AND NOT 7 = 0x31 AND NOT 7 \<and> w AND 1 = 0x31 AND 1))"
proof -
  have a: "GET_SIZE tight_fit_heap (HDRP 0x1100) = Inr 32"
    by (simp add: tight_fit_heap_def GET_SIZE_def HDRP_def WSIZE_def GET_def valid_def
        load_store_same load_store_far far_def)
  have b: "\<not> (32 :: 64 word) - 32 \<ge> 2 * DSIZE" by (simp add: DSIZE_def)
  have c: "(32 :: 64 word) \<noteq> 0" by simp
  have d: "GET tight_fit_heap (NEXT_FREE_ADDR 0x1100) = Inr 0"
    by (simp add: tight_fit_heap_def NEXT_FREE_ADDR_def GET_def valid_def load_store_far far_def)
  have e: "GET tight_fit_heap (PREV_FREE_ADDR 0x1100) = Inr 0"
    by (simp add: tight_fit_heap_def PREV_FREE_ADDR_def WSIZE_def GET_def valid_def
        load_store_far far_def)
  have f: "GET tight_fit_heap (HDRP (0x1100 + 32)) = Inr 0x31"
    by (simp add: tight_fit_heap_def HDRP_def WSIZE_def GET_def valid_def load_store_same)
  have g: "far (seg_class tight_fit_heap (get_segclass_ind 32)) (HDRP (0x1100 + 32))"
    by (simp add: tight_fit_heap_def seg_class_def get_segclass_ind_def HDRP_def WSIZE_def far_def)
  obtain s' where s': "place tight_fit_heap 0x1100 32 = Inr s'"
    using tight_place by blast
  from place_no_split_next_header[OF a b c d e f g _ _ s']
  have "\<exists>w. GET s' (HDRP (0x1100 + 32)) = Inr w \<and> w AND 2 = 2 \<and>
         w AND NOT 7 = 0x31 AND NOT 7 \<and> w AND 1 = 0x31 AND 1"
    by simp
  with a b d e f g s' show ?thesis by blast
qed

section \<open>Reading and writing words at counted addresses\<close>

lemma unat_wa [simp]: "n < 2 ^ 64 \<Longrightarrow> unat (wa n) = n"
  by (simp add: wa_def unat_of_nat)

lemma wa_unat [simp]: "wa (unat p) = p"
  by (simp add: wa_def)

lemma wa_inj [simp]: "m < 2 ^ 64 \<Longrightarrow> n < 2 ^ 64 \<Longrightarrow> wa m = wa n \<longleftrightarrow> m = n"
  by (metis unat_wa)

lemma wa_0 [simp]: "wa 0 = 0"
  by (simp add: wa_def)

lemma wa_eq_0 [simp]: "n < 2 ^ 64 \<Longrightarrow> wa n = 0 \<longleftrightarrow> n = 0"
  using wa_inj[of n 0] by simp

lemma wa_add [simp]: "wa m + wa n = wa (m + n)"
  by (simp add: wa_def)

lemma wa_add_numeral [simp]: "wa m + numeral k = wa (m + numeral k)"
  by (simp add: wa_def)

lemma wa_sub [simp]: "n \<le> m \<Longrightarrow> wa m - wa n = wa (m - n)"
  by (simp add: wa_def)

lemma wa_sub_numeral [simp]: "numeral k \<le> m \<Longrightarrow> wa m - numeral k = wa (m - numeral k)"
  by (simp add: wa_def)

lemma wa_numeral: "numeral k = wa (numeral k)"
  by (simp add: wa_def)

lemma wa_le [simp]: "m < 2 ^ 64 \<Longrightarrow> n < 2 ^ 64 \<Longrightarrow> wa m \<le> wa n \<longleftrightarrow> m \<le> n"
  by (simp add: word_le_nat_alt)

lemma wa_less [simp]: "m < 2 ^ 64 \<Longrightarrow> n < 2 ^ 64 \<Longrightarrow> wa m < wa n \<longleftrightarrow> m < n"
  by (simp add: word_less_nat_alt)

lemma brk_bound: "unat (mem_brk s) < 2 ^ 64"
  using unsigned_less[of "mem_brk s", where 'a=nat] by simp

lemma vc_bound: "vc s n \<Longrightarrow> n + 8 < 2 ^ 64"
  using brk_bound[of s] by (simp add: vc_def)

lemma vc_valid: "vc s n \<Longrightarrow> valid s (wa n) 8"
  using vc_bound[of s n] by (simp add: vc_def valid_def)

lemma GET_wa [simp]: "vc s n \<Longrightarrow> GET s (wa n) = Inr (rd s n)"
  by (simp add: GET_def vc_valid rd_def)

lemma PUT_wa [simp]: "vc s n \<Longrightarrow> PUT s (wa n) v = Inr (wr s n v)"
  by (simp add: PUT_def vc_valid wr_def)

lemma PUT_ADDR_wa [simp]: "vc s n \<Longrightarrow> PUT_ADDR s (wa n) v = Inr (wr s n v)"
  by (simp add: PUT_ADDR_def)

lemma vc_wr [simp]: "vc (wr s n v) m = vc s m"
  by (simp add: vc_def wr_def)

lemma wr_fields [simp]:
  "mem_start_brk (wr s n v) = mem_start_brk s" "mem_brk (wr s n v) = mem_brk s"
  "mem_max_addr (wr s n v) = mem_max_addr s" "heap_listp (wr s n v) = heap_listp s"
  "seg_listp (wr s n v) = seg_listp s"
  by (simp_all add: wr_def)

lemma rd_wr_same [simp]: "rd (wr s n v) n = v"
  by (simp add: rd_def wr_def load_store_same)

lemma far_wa: "m + 8 < 2 ^ 64 \<Longrightarrow> n + 8 < 2 ^ 64 \<Longrightarrow> n + 8 \<le> m \<or> m + 8 \<le> n \<Longrightarrow> far (wa n) (wa m)"
  by (auto simp: far_unat)

lemma rd_wr_far:
  "n + 8 \<le> m \<or> m + 8 \<le> n \<Longrightarrow> vc s n \<Longrightarrow> vc s m \<Longrightarrow> rd (wr s n v) m = rd s m"
  using vc_bound[of s n] vc_bound[of s m]
  by (simp add: rd_def wr_def load_store_far far_wa)

lemma GET_SIZE_szf: "GET_SIZE s p = rbind (GET s p) (\<lambda>w. Inr (szf w))"
  by (simp add: GET_SIZE_def szf_def)

lemma GET_ALLOC_alf: "GET_ALLOC s p = rbind (GET s p) (\<lambda>w. Inr (alf w))"
  by (simp add: GET_ALLOC_def alf_def)

lemma PREV_ALLOC_paf: "PREV_ALLOC s p = rbind (GET s p) (\<lambda>w. Inr (paf w))"
  by (simp add: PREV_ALLOC_def paf_def)

lemma frame_refl [simp]: "frame s s W"
  by (simp add: frame_def)

lemma frame_mono: "frame s s' W \<Longrightarrow> W \<subseteq> W' \<Longrightarrow> frame s s' W'"
  unfolding frame_def by blast

lemma frame_trans:
  assumes "frame s s' W" "frame s' s'' W'"
  shows "frame s s'' (W \<union> W')"
proof -
  from assms have 1: "s' = s\<lparr>mem := mem s'\<rparr>" and 2: "s'' = s'\<lparr>mem := mem s''\<rparr>"
    by (simp_all add: frame_def)
  have "s'' = s\<lparr>mem := mem s''\<rparr>"
    by (subst 2, subst 1) simp
  moreover have "mem s'' (wa x) = mem s (wa x)"
    if "x < 2 ^ 64" "\<forall>c\<in>W \<union> W'. x < c \<or> c + 8 \<le> x" for x
  proof -
    from that have "mem s' (wa x) = mem s (wa x)" "mem s'' (wa x) = mem s' (wa x)"
      using assms by (simp_all add: frame_def)
    then show ?thesis by simp
  qed
  ultimately show ?thesis unfolding frame_def by blast
qed

lemma store64_byte_far:
  assumes "x < 2 ^ 64" "n + 8 < 2 ^ 64" "x < n \<or> n + 8 \<le> x"
  shows "store64 m (wa n) v (wa x) = m (wa x)"
proof -
  have "unat (wa x - wa n) \<ge> 8"
    using assms by (auto simp: unat_sub64)
  then have "\<not> wa x - wa n < 8" by (simp add: word_less_nat_alt)
  then show ?thesis by (simp add: store64_def)
qed

lemma frame_wr: "vc s n \<Longrightarrow> frame s (wr s n v) {n}"
  using vc_bound[of s n] by (simp add: frame_def wr_def store64_byte_far)

lemma frame_fields:
  assumes "frame s s' W"
  shows "mem_start_brk s' = mem_start_brk s" "mem_brk s' = mem_brk s"
    "mem_max_addr s' = mem_max_addr s" "heap_listp s' = heap_listp s" "seg_listp s' = seg_listp s"
proof -
  from assms have *: "s' = s\<lparr>mem := mem s'\<rparr>" by (simp add: frame_def)
  show "mem_start_brk s' = mem_start_brk s" by (subst *) simp
  show "mem_brk s' = mem_brk s" by (subst *) simp
  show "mem_max_addr s' = mem_max_addr s" by (subst *) simp
  show "heap_listp s' = heap_listp s" by (subst *) simp
  show "seg_listp s' = seg_listp s" by (subst *) simp
qed

lemma frame_vc: "frame s s' W \<Longrightarrow> vc s' n = vc s n"
  by (simp add: vc_def frame_fields)

lemma frame_rd:
  assumes "frame s s' W" "\<forall>c\<in>W. n + 8 \<le> c \<or> c + 8 \<le> n" "n + 8 \<le> 2 ^ 64"
  shows "rd s' n = rd s n"
proof -
  have "mem s' (wa n + of_nat i) = mem s (wa n + of_nat i)" if "i < 8" for i
  proof -
    have a: "\<forall>c\<in>W. n + i < c \<or> c + 8 \<le> n + i"
      using assms(2) that by fastforce
    have b: "n + i < 2 ^ 64" using assms(3) that by simp
    have "mem s' (wa (n + i)) = mem s (wa (n + i))"
      using assms(1) a b unfolding frame_def by blast
    then show ?thesis by (simp add: wa_def)
  qed
  from this[of 0] this[of 1] this[of 2] this[of 3] this[of 4] this[of 5] this[of 6] this[of 7]
  show ?thesis by (simp add: rd_def load64_def join8_def)
qed

section \<open>Initialisation\<close>

lemma wr_upd_commute [simp]:
  "(wr s n v)\<lparr>mem_brk := x\<rparr> = wr (s\<lparr>mem_brk := x\<rparr>) n v"
  "(wr s n v)\<lparr>heap_listp := x\<rparr> = wr (s\<lparr>heap_listp := x\<rparr>) n v"
  "(wr s n v)\<lparr>seg_listp := x\<rparr> = wr (s\<lparr>seg_listp := x\<rparr>) n v"
  by (simp_all add: wr_def)

lemma rd_upd [simp]:
  "rd (s\<lparr>mem_brk := x\<rparr>) n = rd s n"
  "rd (s\<lparr>heap_listp := x\<rparr>) n = rd s n"
  "rd (s\<lparr>seg_listp := x\<rparr>) n = rd s n"
  by (simp_all add: rd_def)

lemma vc_upd [simp]:
  "vc (s\<lparr>heap_listp := x\<rparr>) n = vc s n"
  "vc (s\<lparr>seg_listp := x\<rparr>) n = vc s n"
  by (simp_all add: vc_def)

lemma seg_class_wa: "seg_listp s = wa S \<Longrightarrow> seg_class s i = wa (S + 8 * i)"
  by (simp add: seg_class_def WSIZE_def wa_def mult.commute)

declare init_seglist.simps [simp del] find_fit_loop.simps [simp del]
  check_lists_free.simps [simp del] check_lists_valid.simps [simp del]

lemma init_seglist_unfold:
  "i < 12 \<Longrightarrow> seg_listp s = wa S \<Longrightarrow> vc s (S + 8 * i) \<Longrightarrow>
     init_seglist s i = init_seglist (wr s (S + 8 * i) 0) (i + 1)"
  by (subst init_seglist.simps) (simp add: SEGLIST_CLASSES_def seg_class_wa)

lemma init_seglist_done: "init_seglist s 12 = Inr s"
  by (subst init_seglist.simps) (simp add: SEGLIST_CLASSES_def)

lemma init_seglist_all:
  assumes "seg_listp s = wa S" "\<forall>i<12. vc s (S + 8 * i)"
  shows "init_seglist s 0 = Inr (zero_roots s S)"
proof -
  have v: "vc s S" "vc s (S + 8)" "vc s (S + 16)" "vc s (S + 24)" "vc s (S + 32)" "vc s (S + 40)"
    "vc s (S + 48)" "vc s (S + 56)" "vc s (S + 64)" "vc s (S + 72)" "vc s (S + 80)" "vc s (S + 88)"
    using assms(2)[rule_format, of 0] assms(2)[rule_format, of 1] assms(2)[rule_format, of 2]
      assms(2)[rule_format, of 3] assms(2)[rule_format, of 4] assms(2)[rule_format, of 5]
      assms(2)[rule_format, of 6] assms(2)[rule_format, of 7] assms(2)[rule_format, of 8]
      assms(2)[rule_format, of 9] assms(2)[rule_format, of 10] assms(2)[rule_format, of 11]
    by simp_all
  show ?thesis
    using v assms(1)
    by (simp add: init_seglist.simps SEGLIST_CLASSES_def seg_class_wa[where S=S] zero_roots_def)
qed


lemma wa_neq_m1 [simp]: "n < 2 ^ 64 - 1 \<Longrightarrow> wa n \<noteq> - 1"
proof -
  assume n: "n < 2 ^ 64 - 1"
  have "(- 1 :: 64 word) = wa (2 ^ 64 - 1)" by (simp add: wa_def)
  moreover have "wa n \<noteq> wa (2 ^ 64 - 1)" using n by (subst wa_inj) simp_all
  ultimately show ?thesis by simp
qed

lemma vc_upd_brk [simp]:
  "vc (s\<lparr>mem_brk := wa e\<rparr>) n \<longleftrightarrow> unat (mem_start_brk s) \<le> n \<and> n + 8 \<le> unat (wa e)"
  by (simp add: vc_def)

lemma mm_init_fresh:
  assumes b: "mem_brk s = wa b" "b + 640 < 2 ^ 64"
    and lo: "unat (mem_start_brk s) \<le> b"
    and room: "b + 640 \<le> unat (mem_max_addr s)"
  shows "mm_init s = Inr (init_state s, True)"
  using b(2) lo room
  apply (simp add: mm_init_def mem_sbrk_def SEGLIST_CLASSES_def init_seglist_all[where S=b] zero_roots_def WSIZE_def DSIZE_def CHUNKSIZE_def
      b(1) Let_def seg_class_wa[where S=b] extend_heap_def align_def ALIGNMENT_def PREV_ALLOC_paf
      HDRP_def FTRP_def GET_SIZE_szf NEXT_BLKP_def seglist_add_def get_segclass_ind_def
      coalesce_def GET_ALLOC_alf PACK_def NEXT_FREE_ADDR_def PREV_FREE_ADDR_def
      rd_wr_far szf_def alf_def paf_def)
  apply (simp add: init_state_def zero_roots_def b(1) add.commute)
  done


lemma init_state_fields:
  assumes "mem_brk s = wa b" "b + 640 < 2 ^ 64"
  shows "seg_listp (init_state s) = wa b" "heap_listp (init_state s) = wa (b + 128)"
    "mem_brk (init_state s) = wa (b + 640)" "mem_start_brk (init_state s) = mem_start_brk s"
    "mem_max_addr (init_state s) = mem_max_addr s"
  using assms by (simp_all add: init_state_def zero_roots_def Let_def)

lemma init_state_vc:
  assumes "mem_brk s = wa b" "b + 640 < 2 ^ 64"
  shows "vc (init_state s) n \<longleftrightarrow> unat (mem_start_brk s) \<le> n \<and> n + 8 \<le> b + 640"
  using assms by (simp add: vc_def init_state_fields[OF assms])

lemma init_state_rd:
  assumes "mem_brk s = wa b" "b + 640 < 2 ^ 64" "unat (mem_start_brk s) \<le> b"
  shows "rd (init_state s) (b + 120) = 514" "rd (init_state s) (b + 624) = 514"
    "rd (init_state s) (b + 632) = 1" "rd (init_state s) (b + 128) = 0"
    "rd (init_state s) (b + 136) = 0"
    "i < 12 \<Longrightarrow> rd (init_state s) (b + 8 * i) = (if i = 4 then wa (b + 128) else 0)"
proof -
  have i: "i = 0 \<or> i = 1 \<or> i = 2 \<or> i = 3 \<or> i = 4 \<or> i = 5 \<or> i = 6 \<or> i = 7 \<or> i = 8
      \<or> i = 9 \<or> i = 10 \<or> i = 11" if "i < 12"
    using that by presburger
  show "rd (init_state s) (b + 120) = 514" "rd (init_state s) (b + 624) = 514"
    "rd (init_state s) (b + 632) = 1" "rd (init_state s) (b + 128) = 0"
    "rd (init_state s) (b + 136) = 0"
    using assms by (simp_all add: init_state_def zero_roots_def Let_def rd_wr_far)
  show "rd (init_state s) (b + 8 * i) = (if i = 4 then wa (b + 128) else 0)" if "i < 12"
    using i[OF that] assms
    by (auto simp: init_state_def zero_roots_def Let_def rd_wr_far)
qed

text \<open>
  C1. On a region with room for the index, the sentinels and the first block, \<^verbatim>\<open>mm_init\<close>
  succeeds and leaves exactly one block between the prologue and the epilogue. It is free,
  and its size is 512 bytes: \<^verbatim>\<open>mm_init\<close> passes \<^verbatim>\<open>CHUNKSIZE/WSIZE\<close> = 512 to \<^verbatim>\<open>extend_heap\<close>,
  which takes its argument as a number of bytes. The comment in the source promises a block
  of \<^verbatim>\<open>CHUNKSIZE\<close> = 4096 bytes.
\<close>

theorem mm_init_one_free_block_512:
  assumes "unat (mem_start_brk s) \<le> unat (mem_brk s)"
    and "unat (mem_brk s) + 640 \<le> unat (mem_max_addr s)"
  shows "\<exists>s'. mm_init s = Inr (s', True) \<and>
           blocks_at s' (heap_listp s') [(heap_listp s', 512, False)]"
proof -
  define b where "b = unat (mem_brk s)"
  have b: "mem_brk s = wa b" "b + 640 < 2 ^ 64" "unat (mem_start_brk s) \<le> b"
    "b + 640 \<le> unat (mem_max_addr s)"
    using assms unsigned_less[of "mem_max_addr s", where 'a=nat] by (simp_all add: b_def)
  have run: "mm_init s = Inr (init_state s, True)"
    using b by (intro mm_init_fresh) simp_all
  have h: "HDRP (wa (b + 128)) = wa (b + 120)" "HDRP (wa (b + 128) + 512) = wa (b + 632)"
    by (simp_all add: HDRP_def WSIZE_def add.commute[where 'a=nat])
  have v: "vc (init_state s) (b + 120)" "vc (init_state s) (b + 632)"
    using b(2,3) by (simp_all add: init_state_vc[OF b(1,2)])
  have "GET_SIZE (init_state s) (wa (b + 120)) = Inr 512"
    "GET_ALLOC (init_state s) (wa (b + 120)) = Inr 0"
    "GET_SIZE (init_state s) (wa (b + 632)) = Inr 0"
    using v init_state_rd(1,3)[OF b(1,2,3)]
    by (simp_all add: GET_SIZE_szf GET_ALLOC_alf szf_def alf_def)
  then have "blocks_at (init_state s) (wa (b + 128)) [(wa (b + 128), 512, False)]"
    unfolding blocks_at.simps h by simp
  then show ?thesis using run init_state_fields(2)[OF b(1,2)] by simp
qed

theorem mm_init_one_free_block_512_witness:
  "unat (mem_start_brk fresh_heap) \<le> unat (mem_brk fresh_heap) \<and>
   unat (mem_brk fresh_heap) + 640 \<le> unat (mem_max_addr fresh_heap) \<and>
   (\<exists>s'. mm_init fresh_heap = Inr (s', True) \<and>
      blocks_at s' (heap_listp s') [(heap_listp s', 512, False)])"
  using mm_init_one_free_block_512[of fresh_heap] by (simp add: fresh_heap_def)

section \<open>The best-fit search\<close>

lemma slack_less:
  fixes a b sz :: "64 word"
  assumes "sz \<le> a" "sz \<le> b"
  shows "a - sz < b - sz \<longleftrightarrow> a < b" "a - sz \<le> b - sz \<longleftrightarrow> a \<le> b"
  using assms by (auto simp: word_le_nat_alt word_less_nat_alt unat_sub64)

lemma scan_spec:
  assumes "\<forall>x\<in>set xs. x \<noteq> 0" and "best = 0 \<or> (sz \<le> h best \<and> diff = h best - sz)"
  shows "if best = 0 \<and> (\<forall>x\<in>set xs. h x < sz) then scan h sz xs best diff = 0
         else (scan h sz xs best diff = best \<and> best \<noteq> 0 \<or> scan h sz xs best diff \<in> set xs) \<and>
              sz \<le> h (scan h sz xs best diff) \<and>
              (\<forall>x\<in>set xs. sz \<le> h x \<longrightarrow> h (scan h sz xs best diff) \<le> h x) \<and>
              (best \<noteq> 0 \<longrightarrow> h (scan h sz xs best diff) \<le> h best)"
  using assms
proof (induction xs arbitrary: best diff)
  case Nil
  then show ?case by auto
next
  case (Cons x xs)
  have x0: "x \<noteq> 0" and xs0: "\<forall>x\<in>set xs. x \<noteq> 0" using Cons.prems(1) by auto
  show ?case
  proof (cases "sz \<le> h x \<and> (best = 0 \<or> diff > h x - sz)")
    case True
    show ?thesis
    proof (cases "h x - sz = 0")
      case z: True
      then have "h x = sz" by simp
      with True x0 Cons.prems(2) show ?thesis by (auto simp: not_less)
    next
      case nz: False
      let ?r = "scan h sz xs x (h x - sz)"
      have r: "scan h sz (x # xs) best diff = ?r" using True nz by simp
      from Cons.IH[OF xs0, of x "h x - sz"] True x0
      have ih: "(?r = x \<or> ?r \<in> set xs) \<and> sz \<le> h ?r \<and>
          (\<forall>y\<in>set xs. sz \<le> h y \<longrightarrow> h ?r \<le> h y) \<and> h ?r \<le> h x"
        by (auto split: if_splits)
      have "h ?r \<le> h best" if "best \<noteq> 0"
      proof -
        from that Cons.prems(2) have b: "sz \<le> h best" "diff = h best - sz" by auto
        with True that have "h x - sz < h best - sz" by auto
        then have "h x < h best" using slack_less(1)[of sz "h x" "h best"] True b by simp
        with ih show ?thesis by auto
      qed
      with ih True show ?thesis unfolding r by (auto simp: not_less)
    qed
  next
    case False
    let ?r = "scan h sz xs best diff"
    have r: "scan h sz (x # xs) best diff = ?r" using False by auto
    note ih = Cons.IH[OF xs0 Cons.prems(2)]
    show ?thesis
    proof (cases "sz \<le> h x")
      case nf: False
      then show ?thesis using ih unfolding r by (auto simp: not_le split: if_splits)
    next
      case f: True
      with False have b0: "best \<noteq> 0" and d: "\<not> diff > h x - sz" by auto
      from b0 Cons.prems(2) have b: "sz \<le> h best" "diff = h best - sz" by auto
      from d b have "h best \<le> h x" using slack_less(2)[of sz "h best" "h x"] f by (simp add: not_less)
      with ih b0 show ?thesis unfolding r by (auto split: if_splits)
    qed
  qed
qed

lemma seglist_search_loop_scan:
  assumes "path s cur xs" and "\<forall>x\<in>set xs. GET_SIZE s (HDRP x) = Inr (h x)"
  shows "seglist_search_loop s sz cur best diff = Some (Inr (scan h sz xs best diff))"
  using assms
proof (induction xs arbitrary: cur best diff)
  case Nil
  then show ?case by (subst seglist_search_loop.simps) simp
next
  case (Cons x xs)
  from Cons.prems(1) obtain nxt where x: "cur = x" "x \<noteq> 0" "GET s (NEXT_FREE_ADDR x) = Inr nxt"
    "path s nxt xs"
    by (auto split: sum.splits)
  from Cons.prems(2) have hx: "GET_SIZE s (HDRP x) = Inr (h x)"
    and hxs: "\<forall>x\<in>set xs. GET_SIZE s (HDRP x) = Inr (h x)" by auto
  show ?case
    unfolding x(1)
    by (subst seglist_search_loop.simps) (auto simp: x hx Cons.IH[OF x(4) hxs])
qed

lemma seglist_search_scan:
  assumes "bucket s i xs" and "\<forall>x\<in>set xs. GET_SIZE s (HDRP x) = Inr (h x)"
  shows "seglist_search s i sz = Inr (scan h sz xs 0 0)"
proof -
  from assms(1) obtain p where p: "GET s (seg_class s i) = Inr p" "path s p xs"
    by (auto simp: bucket_def split: sum.splits)
  show ?thesis
    by (simp add: seglist_search_def p(1) seglist_search_loop_scan[OF p(2) assms(2)] run_loop_def)
qed

lemma path_nonzero: "path s p xs \<Longrightarrow> \<forall>x\<in>set xs. x \<noteq> 0"
  by (induction xs arbitrary: p) (auto split: sum.splits)


lemma find_fit_loop_spec:
  assumes "i \<le> j" "j \<le> 12"
    and buckets: "\<forall>k. i \<le> k \<and> k \<le> j \<and> k < 12 \<longrightarrow>
        bucket s k (bs k) \<and> (\<forall>x\<in>set (bs k). GET_SIZE s (HDRP x) = Inr (h x))"
    and nofit: "\<forall>k. i \<le> k \<and> k < j \<longrightarrow> (\<forall>x\<in>set (bs k). h x < asize)"
    and fit: "j < 12 \<longrightarrow> (\<exists>x\<in>set (bs j). asize \<le> h x)"
  shows "find_fit_loop s asize i = Inr (if j = 12 then 0 else scan h asize (bs j) 0 0)"
  using assms(1,3,4)
proof (induction "j - i" arbitrary: i)
  case 0
  then have ij: "i = j" by simp
  show ?case
  proof (cases "j = 12")
    case True
    then show ?thesis unfolding ij
      by (subst find_fit_loop.simps) (simp add: SEGLIST_CLASSES_def)
  next
    case False
    with assms(2) have j: "j < 12" by simp
    have "i \<le> j \<and> j \<le> j \<and> j < 12" using ij j by simp
    with "0.prems"(2) have b: "bucket s j (bs j)"
      "\<forall>x\<in>set (bs j). GET_SIZE s (HDRP x) = Inr (h x)"
      by blast+
    from b(1) have nz: "\<forall>x\<in>set (bs j). x \<noteq> 0"
      by (auto simp: bucket_def split: sum.splits dest: path_nonzero)
    from fit j obtain x where x: "x \<in> set (bs j)" "asize \<le> h x" by auto
    have "\<not> (\<forall>x\<in>set (bs j). h x < asize)" using x by (auto simp: not_less)
    with scan_spec[OF nz, of 0 asize h 0] nz
    have "scan h asize (bs j) 0 0 \<noteq> 0" by (auto split: if_splits)
    then show ?thesis unfolding ij using j False
      by (subst find_fit_loop.simps) (simp add: SEGLIST_CLASSES_def seglist_search_scan[OF b])
  qed
next
  case (Suc n)
  then have lt: "i < j" by simp
  with assms(2) have i12: "i < 12" by simp
  have "i \<le> i \<and> i \<le> j \<and> i < 12" using lt i12 by simp
  with Suc.prems(2) have b: "bucket s i (bs i)"
    "\<forall>x\<in>set (bs i). GET_SIZE s (HDRP x) = Inr (h x)"
    by blast+
  from b(1) have nz: "\<forall>x\<in>set (bs i). x \<noteq> 0"
    by (auto simp: bucket_def split: sum.splits dest: path_nonzero)
  from Suc.prems(3) lt have "\<forall>x\<in>set (bs i). h x < asize" by auto
  with scan_spec[OF nz, of 0 asize h 0] have z: "scan h asize (bs i) 0 0 = 0" by simp
  have p2: "\<forall>k. i + 1 \<le> k \<and> k \<le> j \<and> k < 12 \<longrightarrow>
        bucket s k (bs k) \<and> (\<forall>x\<in>set (bs k). GET_SIZE s (HDRP x) = Inr (h x))"
  proof (intro allI impI)
    fix k assume "i + 1 \<le> k \<and> k \<le> j \<and> k < 12"
    then have "i \<le> k \<and> k \<le> j \<and> k < 12" by simp
    with Suc.prems(2)
    show "bucket s k (bs k) \<and> (\<forall>x\<in>set (bs k). GET_SIZE s (HDRP x) = Inr (h x))" by blast
  qed
  have p3: "\<forall>k. i + 1 \<le> k \<and> k < j \<longrightarrow> (\<forall>x\<in>set (bs k). h x < asize)"
  proof (intro allI impI)
    fix k assume "i + 1 \<le> k \<and> k < j"
    then have "i \<le> k \<and> k < j" by simp
    with Suc.prems(3) show "\<forall>x\<in>set (bs k). h x < asize" by blast
  qed
  have "n = j - (i + 1)" "i + 1 \<le> j" using Suc.hyps(2) lt by simp_all
  from Suc.hyps(1)[OF this p2 p3]
  have "find_fit_loop s asize (i + 1) = Inr (if j = 12 then 0 else scan h asize (bs j) 0 0)" .
  then show ?case using i12
    by (subst find_fit_loop.simps) (simp add: SEGLIST_CLASSES_def seglist_search_scan[OF b] z)
qed

text \<open>
  C4. Let \<open>bs k\<close> be the blocks of free list \<open>k\<close> in link order and \<open>h\<close> their sizes, for the lists
  from the class of \<open>asize\<close> up to \<open>j\<close>, where \<open>j\<close> is the first list that holds a block of size
  at least \<open>asize\<close>, or the number of lists when there is none. Then \<^verbatim>\<open>find_fit\<close> returns: null
  when there is no such list; otherwise a block of list \<open>j\<close> that fits and whose slack is
  the smallest among the blocks of list \<open>j\<close> that fit. Nothing is assumed about the lists
  after \<open>j\<close>: the search does not look at them.
\<close>

theorem find_fit_best_fit:
  assumes "get_segclass_ind asize \<le> j" "j \<le> SEGLIST_CLASSES"
    and buckets: "\<forall>k. get_segclass_ind asize \<le> k \<and> k \<le> j \<and> k < SEGLIST_CLASSES \<longrightarrow>
        bucket s k (bs k) \<and> (\<forall>x\<in>set (bs k). GET_SIZE s (HDRP x) = Inr (h x))"
    and nofit: "\<forall>k. get_segclass_ind asize \<le> k \<and> k < j \<longrightarrow> (\<forall>x\<in>set (bs k). h x < asize)"
    and fit: "j < SEGLIST_CLASSES \<longrightarrow> (\<exists>x\<in>set (bs j). asize \<le> h x)"
  shows "\<exists>r. find_fit s asize = Inr r \<and>
           (if j = SEGLIST_CLASSES then r = 0
            else r \<noteq> 0 \<and> r \<in> set (bs j) \<and> asize \<le> h r \<and>
                 (\<forall>x\<in>set (bs j). asize \<le> h x \<longrightarrow> h r - asize \<le> h x - asize))"
proof -
  let ?r = "if j = 12 then 0 else scan h asize (bs j) 0 0"
  have run: "find_fit s asize = Inr ?r"
    unfolding find_fit_def using assms
    by (intro find_fit_loop_spec) (simp_all add: SEGLIST_CLASSES_def)
  show ?thesis
  proof (cases "j = 12")
    case True
    with run show ?thesis by (simp add: SEGLIST_CLASSES_def)
  next
    case False
    with assms(2) have j: "j < 12" by (simp add: SEGLIST_CLASSES_def)
    from buckets[rule_format, of j] j assms(1) have b: "bucket s j (bs j)"
      by (simp add: SEGLIST_CLASSES_def)
    then have nz: "\<forall>x\<in>set (bs j). x \<noteq> 0"
      by (auto simp: bucket_def split: sum.splits dest: path_nonzero)
    from fit j obtain x where x: "x \<in> set (bs j)" "asize \<le> h x"
      by (auto simp: SEGLIST_CLASSES_def)
    have "\<not> (\<forall>x\<in>set (bs j). h x < asize)" using x by (auto simp: not_less)
    with scan_spec[OF nz, of 0 asize h 0]
    have r: "scan h asize (bs j) 0 0 \<in> set (bs j)" "asize \<le> h (scan h asize (bs j) 0 0)"
      "\<forall>x\<in>set (bs j). asize \<le> h x \<longrightarrow> h (scan h asize (bs j) 0 0) \<le> h x"
      by (auto split: if_splits)
    have "h (scan h asize (bs j) 0 0) - asize \<le> h x - asize" if "x \<in> set (bs j)" "asize \<le> h x" for x
      using r(2,3) that slack_less(2)[of asize "h (scan h asize (bs j) 0 0)" "h x"] by simp
    with r nz run False show ?thesis
      by (auto simp: SEGLIST_CLASSES_def)
  qed
qed

lemma best_fit_heap_reads:
  "GET best_fit_heap 0x1008 = Inr 0x1400" "GET best_fit_heap 0x13F8 = Inr 48"
  "GET best_fit_heap 0x1400 = Inr 0" "GET best_fit_heap 0x1010 = Inr 0x1100"
  "GET best_fit_heap 0x10F8 = Inr 128" "GET best_fit_heap 0x1100 = Inr 0x1200"
  "GET best_fit_heap 0x11F8 = Inr 96" "GET best_fit_heap 0x1200 = Inr 0x1300"
  "GET best_fit_heap 0x12F8 = Inr 80" "GET best_fit_heap 0x1300 = Inr 0"
  "GET best_fit_heap 0x1018 = Inr 0xDEAD0000" "GET best_fit_heap 0xDEAD0000 = Inl (Segfault 0xDEAD0000)"
  by (simp_all add: best_fit_heap_def GET_def valid_def load_store_same load_store_far far_def)

theorem find_fit_best_fit_witness:
  "get_segclass_ind 64 \<le> 2 \<and> 2 \<le> SEGLIST_CLASSES \<and>
   bucket best_fit_heap 1 [0x1400] \<and> bucket best_fit_heap 2 [0x1100, 0x1200, 0x1300] \<and>
   \<not> bucket best_fit_heap 3 [] \<and>
   (\<exists>r. find_fit best_fit_heap 64 = Inr r \<and> r = 0x1300)"
proof -
  have c: "get_segclass_ind 64 = 1" by (simp add: get_segclass_ind_def)
  have sc: "seg_class best_fit_heap (Suc 0) = 0x1008" "seg_class best_fit_heap 2 = 0x1010"
    "seg_class best_fit_heap 3 = 0x1018"
    by (simp_all add: seg_class_def WSIZE_def best_fit_heap_def)
  have b1: "bucket best_fit_heap 1 [0x1400]"
    by (simp add: bucket_def sc NEXT_FREE_ADDR_def best_fit_heap_reads)
  have b2: "bucket best_fit_heap 2 [0x1100, 0x1200, 0x1300]"
    by (simp add: bucket_def sc NEXT_FREE_ADDR_def best_fit_heap_reads)
  have b3: "\<not> bucket best_fit_heap 3 []"
    by (simp add: bucket_def sc NEXT_FREE_ADDR_def best_fit_heap_reads)
  have k: "k = 1 \<or> k = 2" if "1 \<le> k" "k \<le> 2" for k :: nat using that by presburger
  have sizes: "\<forall>k. get_segclass_ind 64 \<le> k \<and> k \<le> 2 \<and> k < SEGLIST_CLASSES \<longrightarrow>
        bucket best_fit_heap k (best_fit_lists k) \<and>
        (\<forall>x\<in>set (best_fit_lists k). GET_SIZE best_fit_heap (HDRP x) = Inr (best_fit_sizes x))"
    using b1 b2 k unfolding c
    by (auto simp: best_fit_lists_def best_fit_sizes_def GET_SIZE_def HDRP_def WSIZE_def
        best_fit_heap_reads)
  have nofit: "\<forall>k. get_segclass_ind 64 \<le> k \<and> k < 2 \<longrightarrow>
      (\<forall>x\<in>set (best_fit_lists k). best_fit_sizes x < 64)"
    unfolding c by (auto simp: best_fit_lists_def best_fit_sizes_def)
  have fit: "2 < SEGLIST_CLASSES \<longrightarrow> (\<exists>x\<in>set (best_fit_lists 2). 64 \<le> best_fit_sizes x)"
    by (simp add: best_fit_lists_def best_fit_sizes_def)
  from find_fit_best_fit[OF _ _ sizes nofit fit]
  obtain r where r: "find_fit best_fit_heap 64 = Inr r" "r \<in> set (best_fit_lists 2)"
    "\<forall>x\<in>set (best_fit_lists 2). 64 \<le> best_fit_sizes x \<longrightarrow>
        best_fit_sizes r - 64 \<le> best_fit_sizes x - 64"
    by (auto simp: c SEGLIST_CLASSES_def)
  from r(2,3) have "r = 0x1300"
    by (auto simp: best_fit_lists_def best_fit_sizes_def)
  with r(1) b1 b2 b3 c show ?thesis by (simp add: SEGLIST_CLASSES_def)
qed

section \<open>Free lists as linked structures\<close>

lemma lists_add:
  assumes "lists F cls R N P" "a \<notin> F" "a \<noteq> 0" "c < 12"
  shows "lists (insert a F) (cls(a := c)) (add_R R c a) (add_N N R c a) (add_P P R c a)"
proof -
  from assms have z: "0 \<notin> F"
    and r: "\<And>i. i < 12 \<Longrightarrow> R i \<noteq> 0 \<Longrightarrow> R i \<in> F \<and> cls (R i) = i \<and> P (R i) = 0"
    and cl: "\<And>b. b \<in> F \<Longrightarrow> cls b < 12"
    and p0: "\<And>b. b \<in> F \<Longrightarrow> P b = 0 \<Longrightarrow> R (cls b) = b"
    and n: "\<And>b. b \<in> F \<Longrightarrow> N b \<noteq> 0 \<Longrightarrow> N b \<in> F \<and> cls (N b) = cls b \<and> P (N b) = b"
    and p: "\<And>b. b \<in> F \<Longrightarrow> P b \<noteq> 0 \<Longrightarrow> P b \<in> F \<and> cls (P b) = cls b \<and> N (P b) = b"
    unfolding lists_def by blast+
  let ?c = "cls(a := c)" and ?R = "add_R R c a" and ?N = "add_N N R c a" and ?P = "add_P P R c a"
  have rc: "R c \<noteq> 0 \<Longrightarrow> R c \<in> F \<and> cls (R c) = c \<and> P (R c) = 0 \<and> R c \<noteq> a"
    using r[of c] assms(2,4) by metis
  have Pa: "?P a = 0" using rc by (auto simp: add_P_def)
  have Pr: "R c \<noteq> 0 \<Longrightarrow> ?P (R c) = a" by (simp add: add_P_def)
  have Po: "b \<noteq> a \<Longrightarrow> b \<noteq> R c \<Longrightarrow> ?P b = P b" for b by (simp add: add_P_def)
  have Po': "b \<noteq> a \<Longrightarrow> R c = 0 \<Longrightarrow> ?P b = P b" for b by (simp add: add_P_def)
  have Na: "?N a = R c" by (simp add: add_N_def)
  have No: "b \<noteq> a \<Longrightarrow> ?N b = N b" for b by (simp add: add_N_def)
  have Rc: "?R c = a" by (simp add: add_R_def)
  have Ro: "i \<noteq> c \<Longrightarrow> ?R i = R i" for i by (simp add: add_R_def)
  have ca: "?c a = c" by simp
  have co: "b \<noteq> a \<Longrightarrow> ?c b = cls b" for b by simp
  have 1: "?R i \<in> insert a F \<and> ?c (?R i) = i \<and> ?P (?R i) = 0" if "i < 12" "?R i \<noteq> 0" for i
  proof (cases "i = c")
    case True
    then show ?thesis using Rc ca Pa by simp
  next
    case False
    with that Ro have ri: "R i \<noteq> 0" "?R i = R i" by simp_all
    from r[OF that(1) ri(1)] have *: "R i \<in> F" "cls (R i) = i" "P (R i) = 0" by simp_all
    have "R i \<noteq> a" using * assms(2) by metis
    moreover have "R i \<noteq> R c" using * rc False ri(1) by metis
    ultimately show ?thesis using * ri Po[of "R i"] co[of "R i"] by simp
  qed
  have 2: "?c b < 12 \<and> (?P b = 0 \<longrightarrow> ?R (?c b) = b) \<and>
        (?N b \<noteq> 0 \<longrightarrow> ?N b \<in> insert a F \<and> ?c (?N b) = ?c b \<and> ?P (?N b) = b) \<and>
        (?P b \<noteq> 0 \<longrightarrow> ?P b \<in> insert a F \<and> ?c (?P b) = ?c b \<and> ?N (?P b) = b)"
    if "b \<in> insert a F" for b
  proof (cases "b = a")
    case True
    have "?N a \<noteq> 0 \<longrightarrow> ?N a \<in> insert a F \<and> ?c (?N a) = ?c a \<and> ?P (?N a) = a"
      using rc Na Pr co[of "R c"] ca by auto
    then show ?thesis unfolding True using assms(4) ca Pa Rc by simp
  next
    case False
    with that have b: "b \<in> F" by simp
    have b0: "b \<noteq> 0" using z b by metis
    have A: "?c b < 12" using cl[OF b] co[OF False] by simp
    have B: "?P b = 0 \<longrightarrow> ?R (?c b) = b"
      by (metis False Po Pr Ro assms(3) b b0 fun_upd_apply p0)
    have C: "?N b \<noteq> 0 \<longrightarrow> ?N b \<in> insert a F \<and> ?c (?N b) = ?c b \<and> ?P (?N b) = b"
      by (metis No Po assms(2) b b0 co insertCI n rc)
    have D: "?P b \<noteq> 0 \<longrightarrow> ?P b \<in> insert a F \<and> ?c (?P b) = ?c b \<and> ?N (?P b) = b"
      by (smt (verit) Na Po Po' Pr add_N_def assms(2) b ca fun_upd_other insertCI p rc)
    show ?thesis using A B C D by blast
  qed
  show ?thesis unfolding lists_def using z assms(3) 1 2 by blast
qed


lemma lists_del:
  assumes "lists F cls R N P" "a \<in> F"
  shows "lists (F - {a}) cls (del_R cls R N P a) (del_N N P a) (del_P N P a)"
proof -
  from assms have z: "0 \<notin> F"
    and r: "\<And>i. i < 12 \<Longrightarrow> R i \<noteq> 0 \<Longrightarrow> R i \<in> F \<and> cls (R i) = i \<and> P (R i) = 0"
    and c: "\<And>b. b \<in> F \<Longrightarrow> cls b < 12"
    and p0: "\<And>b. b \<in> F \<Longrightarrow> P b = 0 \<Longrightarrow> R (cls b) = b"
    and n: "\<And>b. b \<in> F \<Longrightarrow> N b \<noteq> 0 \<Longrightarrow> N b \<in> F \<and> cls (N b) = cls b \<and> P (N b) = b"
    and p: "\<And>b. b \<in> F \<Longrightarrow> P b \<noteq> 0 \<Longrightarrow> P b \<in> F \<and> cls (P b) = cls b \<and> N (P b) = b"
    unfolding lists_def by blast+
  let ?R = "del_R cls R N P a" and ?N = "del_N N P a" and ?P = "del_P N P a"
  have a0: "a \<noteq> 0" using z assms(2) by metis
  note na = n[OF assms(2)] and pa = p[OF assms(2)] and p0a = p0[OF assms(2)] and ca = c[OF assms(2)]
  have Rc: "P a = 0 \<Longrightarrow> ?R (cls a) = N a" by (simp add: del_R_def)
  have Ro: "i \<noteq> cls a \<Longrightarrow> ?R i = R i" for i by (simp add: del_R_def)
  have Ro': "P a \<noteq> 0 \<Longrightarrow> ?R i = R i" for i by (simp add: del_R_def)
  have Np: "P a \<noteq> 0 \<Longrightarrow> ?N (P a) = N a" by (simp add: del_N_def)
  have No: "b \<noteq> P a \<Longrightarrow> ?N b = N b" for b by (simp add: del_N_def)
  have No': "P a = 0 \<Longrightarrow> ?N b = N b" for b by (simp add: del_N_def)
  have Pn: "N a \<noteq> 0 \<Longrightarrow> ?P (N a) = P a" by (simp add: del_P_def)
  have Po: "b \<noteq> N a \<Longrightarrow> ?P b = P b" for b by (simp add: del_P_def)
  have Po': "N a = 0 \<Longrightarrow> ?P b = P b" for b by (simp add: del_P_def)
  have 1: "?R i \<in> F - {a} \<and> cls (?R i) = i \<and> ?P (?R i) = 0" if "i < 12" "?R i \<noteq> 0" for i
  proof (cases "P a = 0 \<and> i = cls a")
    case True
    then have e: "?R i = N a" using Rc by simp
    with that have n0: "N a \<noteq> 0" by simp
    from na[OF n0] have *: "N a \<in> F" "cls (N a) = cls a" "P (N a) = a" by simp_all
    have "N a \<noteq> a" using * True a0 by metis
    then show ?thesis using * True e Pn[OF n0] by simp
  next
    case False
    then have e: "?R i = R i" using Ro Ro' by metis
    with that have r0: "R i \<noteq> 0" by simp
    from r[OF that(1) r0] have *: "R i \<in> F" "cls (R i) = i" "P (R i) = 0" by simp_all
    have "R i \<noteq> a" using * False by metis
    moreover have "?P (R i) = 0"
    proof (cases "R i = N a")
      case True
      then show ?thesis using na * a0 r0 by metis
    next
      case False
      then show ?thesis using Po * by simp
    qed
    ultimately show ?thesis using * e by simp
  qed
  have 2: "cls b < 12 \<and> (?P b = 0 \<longrightarrow> ?R (cls b) = b) \<and>
        (?N b \<noteq> 0 \<longrightarrow> ?N b \<in> F - {a} \<and> cls (?N b) = cls b \<and> ?P (?N b) = b) \<and>
        (?P b \<noteq> 0 \<longrightarrow> ?P b \<in> F - {a} \<and> cls (?P b) = cls b \<and> ?N (?P b) = b)"
    if "b \<in> F - {a}" for b
  proof -
    from that have b: "b \<in> F" "b \<noteq> a" by auto
    have b0: "b \<noteq> 0" using z b by metis
    note nb = n[OF b(1)] and pb = p[OF b(1)] and p0b = p0[OF b(1)] and cb = c[OF b(1)]
    have B: "?P b = 0 \<longrightarrow> ?R (cls b) = b"
      by (metis Pn Po Rc Ro Ro' b(2) b0 na p0a p0b)
    have C: "?N b \<noteq> 0 \<longrightarrow> ?N b \<in> F - {a} \<and> cls (?N b) = cls b \<and> ?P (?N b) = b"
      by (smt (verit, best) Diff_insert_absorb Np Pn assms(2) b(2) b0 del_N_def
          del_P_def fun_upd_other insertE mk_disjoint_insert na nb pa)
    have D: "?P b \<noteq> 0 \<longrightarrow> ?P b \<in> F - {a} \<and> cls (?P b) = cls b \<and> ?N (?P b) = b"
      by (smt (verit, best) Diff_insert_absorb Np Pn assms(2) b(2) b0 del_N_def
          del_P_def fun_upd_other insertE mk_disjoint_insert na pa pb)
    show ?thesis using cb B C D by blast
  qed
  show ?thesis unfolding lists_def using z 1 2 by blast
qed

subsection \<open>Word stores and the representation of the lists\<close>

lemma rd_wr:
  "vc s n \<Longrightarrow> vc s m \<Longrightarrow> m = n \<or> n + 8 \<le> m \<or> m + 8 \<le> n \<Longrightarrow>
     rd (wr s n v) m = (if m = n then v else rd s m)"
  by (auto simp: rd_wr_far)

lemma frame_wr_step: "frame s s1 W \<Longrightarrow> vc s1 n \<Longrightarrow> frame s (wr s1 n v) (insert n W)"
  using frame_trans[of s s1 W "wr s1 n v" "{n}"] frame_wr[of s1 n v] by simp

lemma lst_rep_D:
  assumes "lst_rep s F R N P"
  shows "i < 12 \<Longrightarrow> vc s (unat (seg_listp s) + 8 * i)"
    "i < 12 \<Longrightarrow> rd s (unat (seg_listp s) + 8 * i) = wa (R i)"
    "a \<in> F \<Longrightarrow> unat (seg_listp s) + 96 \<le> a" "a \<in> F \<Longrightarrow> vc s a" "a \<in> F \<Longrightarrow> vc s (a + 8)"
    "a \<in> F \<Longrightarrow> rd s a = wa (N a)" "a \<in> F \<Longrightarrow> rd s (a + 8) = wa (P a)"
    "a \<in> F \<Longrightarrow> b \<in> F \<Longrightarrow> a \<noteq> b \<Longrightarrow> a + 16 \<le> b \<or> b + 16 \<le> a"
  using assms unfolding lst_rep_def by auto

text \<open>A store that touches no root and no link word of \<open>F\<close> keeps the representation.\<close>

lemma lst_rep_wr_far:
  assumes rep: "lst_rep s F R N P" and w: "vc s w"
    and r: "unat (seg_listp s) + 96 \<le> w" and f: "\<forall>a\<in>F. w + 8 \<le> a \<or> a + 16 \<le> w"
  shows "lst_rep (wr s w v) F R N P"
  unfolding lst_rep_def
proof (intro conjI ballI allI impI)
  fix i :: nat assume i: "i < 12"
  show "vc (wr s w v) (unat (seg_listp (wr s w v)) + 8 * i)"
    using lst_rep_D(1)[OF rep i] by simp
  have "unat (seg_listp s) + 8 * i + 8 \<le> w" using r i by simp
  then show "rd (wr s w v) (unat (seg_listp (wr s w v)) + 8 * i) = wa (R i)"
    using lst_rep_D(1,2)[OF rep i] w by (simp add: rd_wr_far)
next
  fix a assume a: "a \<in> F"
  note d = lst_rep_D(3-7)[OF rep a]
  from f a have fa: "w + 8 \<le> a \<or> a + 16 \<le> w" by blast
  show "unat (seg_listp (wr s w v)) + 96 \<le> a" "vc (wr s w v) a" "vc (wr s w v) (a + 8)"
    using d by simp_all
  from fa have "w + 8 \<le> a \<or> a + 8 \<le> w" "w + 8 \<le> a + 8 \<or> a + 8 + 8 \<le> w" by auto
  then show "rd (wr s w v) a = wa (N a)" "rd (wr s w v) (a + 8) = wa (P a)"
    using d w by (simp_all add: rd_wr_far)
next
  fix a b assume "a \<in> F" "b \<in> F" "a \<noteq> b"
  then show "a + 16 \<le> b \<or> b + 16 \<le> a" by (rule lst_rep_D(8)[OF rep])
qed

lemma lst_rep_root_upd:
  assumes rep: "lst_rep s F R N P" and i: "i < 12"
  shows "lst_rep (wr s (unat (seg_listp s) + 8 * i) (wa x)) F (R(i := x)) N P"
  unfolding lst_rep_def
proof (intro conjI ballI allI impI)
  let ?w = "unat (seg_listp s) + 8 * i"
  note wi = lst_rep_D(1)[OF rep i]
  fix j :: nat assume j: "j < 12"
  show "vc (wr s ?w (wa x)) (unat (seg_listp (wr s ?w (wa x))) + 8 * j)"
    using lst_rep_D(1)[OF rep j] by simp
  have "j = i \<or> ?w + 8 \<le> unat (seg_listp s) + 8 * j \<or> unat (seg_listp s) + 8 * j + 8 \<le> ?w"
    by auto
  then show "rd (wr s ?w (wa x)) (unat (seg_listp (wr s ?w (wa x))) + 8 * j) = wa ((R(i := x)) j)"
    using lst_rep_D(1,2)[OF rep j] wi by (auto simp: rd_wr_far)
next
  let ?w = "unat (seg_listp s) + 8 * i"
  note wi = lst_rep_D(1)[OF rep i]
  fix a assume a: "a \<in> F"
  note d = lst_rep_D(3-7)[OF rep a]
  show "unat (seg_listp (wr s ?w (wa x))) + 96 \<le> a" "vc (wr s ?w (wa x)) a"
    "vc (wr s ?w (wa x)) (a + 8)"
    using d by simp_all
  have "?w + 8 \<le> a" "?w + 8 \<le> a + 8" using d(1) i by simp_all
  then show "rd (wr s ?w (wa x)) a = wa (N a)" "rd (wr s ?w (wa x)) (a + 8) = wa (P a)"
    using d wi by (simp_all add: rd_wr_far)
next
  fix a b assume "a \<in> F" "b \<in> F" "a \<noteq> b"
  then show "a + 16 \<le> b \<or> b + 16 \<le> a" by (rule lst_rep_D(8)[OF rep])
qed

lemma lst_rep_next_upd:
  assumes rep: "lst_rep s F R N P" and b: "b \<in> F"
  shows "lst_rep (wr s b (wa x)) F R (N(b := x)) P"
  unfolding lst_rep_def
proof (intro conjI ballI allI impI)
  note db = lst_rep_D(3-5)[OF rep b]
  fix j :: nat assume j: "j < 12"
  show "vc (wr s b (wa x)) (unat (seg_listp (wr s b (wa x))) + 8 * j)"
    using lst_rep_D(1)[OF rep j] by simp
  have "unat (seg_listp s) + 8 * j + 8 \<le> b" using db(1) j by simp
  then show "rd (wr s b (wa x)) (unat (seg_listp (wr s b (wa x))) + 8 * j) = wa (R j)"
    using lst_rep_D(1,2)[OF rep j] db by (simp add: rd_wr_far)
next
  note db = lst_rep_D(3-5)[OF rep b]
  fix a assume a: "a \<in> F"
  note d = lst_rep_D(3-7)[OF rep a]
  have sep: "a = b \<or> a + 16 \<le> b \<or> b + 16 \<le> a" using lst_rep_D(8)[OF rep a b] by blast
  show "unat (seg_listp (wr s b (wa x))) + 96 \<le> a" "vc (wr s b (wa x)) a"
    "vc (wr s b (wa x)) (a + 8)"
    using d by simp_all
  show "rd (wr s b (wa x)) a = wa ((N(b := x)) a)" using d db sep by (auto simp: rd_wr_far)
  have "b + 8 \<le> a + 8 \<or> a + 8 + 8 \<le> b" using sep by auto
  then show "rd (wr s b (wa x)) (a + 8) = wa (P a)" using d db by (simp add: rd_wr_far)
next
  fix a b assume "a \<in> F" "b \<in> F" "a \<noteq> b"
  then show "a + 16 \<le> b \<or> b + 16 \<le> a" by (rule lst_rep_D(8)[OF rep])
qed

lemma lst_rep_prev_upd:
  assumes rep: "lst_rep s F R N P" and b: "b \<in> F"
  shows "lst_rep (wr s (b + 8) (wa x)) F R N (P(b := x))"
  unfolding lst_rep_def
proof (intro conjI ballI allI impI)
  note db = lst_rep_D(3-5)[OF rep b]
  fix j :: nat assume j: "j < 12"
  show "vc (wr s (b + 8) (wa x)) (unat (seg_listp (wr s (b + 8) (wa x))) + 8 * j)"
    using lst_rep_D(1)[OF rep j] by simp
  have "unat (seg_listp s) + 8 * j + 8 \<le> b" using db(1) j by simp
  then show "rd (wr s (b + 8) (wa x)) (unat (seg_listp (wr s (b + 8) (wa x))) + 8 * j) = wa (R j)"
    using lst_rep_D(1,2)[OF rep j] db by (simp add: rd_wr_far)
next
  note db = lst_rep_D(3-5)[OF rep b]
  fix a assume a: "a \<in> F"
  note d = lst_rep_D(3-7)[OF rep a]
  have sep: "a = b \<or> a + 16 \<le> b \<or> b + 16 \<le> a" using lst_rep_D(8)[OF rep a b] by blast
  show "unat (seg_listp (wr s (b + 8) (wa x))) + 96 \<le> a" "vc (wr s (b + 8) (wa x)) a"
    "vc (wr s (b + 8) (wa x)) (a + 8)"
    using d by simp_all
  have "b + 8 + 8 \<le> a \<or> a + 8 \<le> b + 8" using sep by auto
  then show "rd (wr s (b + 8) (wa x)) a = wa (N a)" using d db by (simp add: rd_wr_far)
  show "rd (wr s (b + 8) (wa x)) (a + 8) = wa ((P(b := x)) a)"
    using d db sep by (auto simp: rd_wr_far)
next
  fix a b assume "a \<in> F" "b \<in> F" "a \<noteq> b"
  then show "a + 16 \<le> b \<or> b + 16 \<le> a" by (rule lst_rep_D(8)[OF rep])
qed

lemma lst_rep_insert:
  assumes rep: "lst_rep s F R N P"
    and a: "unat (seg_listp s) + 96 \<le> a" "vc s a" "vc s (a + 8)"
    and sep: "\<forall>b\<in>F. a + 16 \<le> b \<or> b + 16 \<le> a"
    and v: "rd s a = wa n" "rd s (a + 8) = wa p"
  shows "lst_rep s (insert a F) R (N(a := n)) (P(a := p))"
  using assms unfolding lst_rep_def by auto

lemma lst_rep_subset: "lst_rep s F R N P \<Longrightarrow> G \<subseteq> F \<Longrightarrow> lst_rep s G R N P"
  unfolding lst_rep_def by (meson subsetD)

lemma lst_rep_cong:
  assumes "lst_rep s F R N P" "\<forall>i<12. R' i = R i" "\<forall>a\<in>F. N' a = N a \<and> P' a = P a"
  shows "lst_rep s F R' N' P'"
  using assms unfolding lst_rep_def by auto

subsection \<open>Insertion and removal\<close>

lemma segclass_lt12: "get_segclass_ind c < 12"
  by (simp add: get_segclass_ind_def)

lemma lst_rep_bound: "lst_rep s F R N P \<Longrightarrow> a \<in> F \<Longrightarrow> a < 2 ^ 64"
  using lst_rep_D(4)[of s F R N P a] vc_bound[of s a] by simp

lemma lcells_I:
  "i < 12 \<Longrightarrow> S + 8 * i \<in> lcells S F" "a \<in> F \<Longrightarrow> a \<in> lcells S F" "a \<in> F \<Longrightarrow> a + 8 \<in> lcells S F"
  unfolding lcells_def by auto

lemma seglist_add_rep:
  assumes rep: "lst_rep s F R N P" and li: "lists F cls R N P"
    and a: "a \<notin> F" "unat (seg_listp s) + 96 \<le> a" "vc s a" "vc s (a + 8)"
    and sep: "\<forall>b\<in>F. a + 16 \<le> b \<or> b + 16 \<le> a"
    and i: "get_segclass_ind c = i"
  shows "\<exists>s'. seglist_add s (wa a) c = Inr s' \<and>
     lst_rep s' (insert a F) (add_R R i a) (add_N N R i a) (add_P P R i a) \<and>
     frame s s' (lcells (unat (seg_listp s)) (insert a F))"
proof -
  define S where "S = unat (seg_listp s)"
  have i12: "i < 12" using i segclass_lt12[of c] by simp
  have cl: "seg_class s i = wa (S + 8 * i)" unfolding S_def by (rule seg_class_wa) simp
  note ri = lst_rep_D(1,2)[OF rep i12, folded S_def]
  let ?s1 = "wr s (S + 8 * i) (wa a)"
  have rep1: "lst_rep ?s1 F (R(i := a)) N P"
    unfolding S_def by (rule lst_rep_root_upd[OF rep i12])
  have f1: "frame s ?s1 {S + 8 * i}" by (rule frame_wr[OF ri(1)])
  have sep1: "\<forall>b\<in>F. a + 8 \<le> b \<or> b + 16 \<le> a" using sep by auto
  have sep2: "\<forall>b\<in>F. a + 8 + 8 \<le> b \<or> b + 16 \<le> a + 8" using sep by auto
  show ?thesis
  proof (cases "R i = 0")
    case True
    let ?s3 = "wr (wr ?s1 a 0) (a + 8) 0"
    have run: "seglist_add s (wa a) c = Inr ?s3"
      using ri a True
      by (simp add: seglist_add_def Let_def i cl NEXT_FREE_ADDR_def PREV_FREE_ADDR_def WSIZE_def)
    have rep2: "lst_rep (wr ?s1 a 0) F (R(i := a)) N P"
      using a sep1 by (intro lst_rep_wr_far[OF rep1]) simp_all
    have rep3: "lst_rep ?s3 F (R(i := a)) N P"
      using a sep2 by (intro lst_rep_wr_far[OF rep2]) simp_all
    have rd3: "rd ?s3 a = wa 0" "rd ?s3 (a + 8) = wa 0"
      using a by (simp_all add: rd_wr_far)
    have rep4: "lst_rep ?s3 (insert a F) (R(i := a)) (N(a := 0)) (P(a := 0))"
      using a sep rd3 by (intro lst_rep_insert[OF rep3]) simp_all
    have rep5: "lst_rep ?s3 (insert a F) (add_R R i a) (add_N N R i a) (add_P P R i a)"
      using rep4 True by (simp add: add_R_def add_N_def add_P_def)
    have "frame s ?s3 (insert (a + 8) (insert a {S + 8 * i}))"
      using a by (intro frame_wr_step f1) simp_all
    then have "frame s ?s3 (lcells S (insert a F))"
      by (rule frame_mono) (use i12 in \<open>auto simp: lcells_def\<close>)
    with run rep5 show ?thesis unfolding S_def by blast
  next
    case False
    define r where "r = R i"
    have rF: "r \<in> F" using li i12 False unfolding lists_def r_def by blast
    have rb: "r < 2 ^ 64" by (rule lst_rep_bound[OF rep rF])
    have r0: "wa r \<noteq> 0" using False rb unfolding r_def by simp
    note dr = lst_rep_D(3-5)[OF rep rF]
    let ?s3 = "wr (wr ?s1 a (wa r)) (a + 8) 0"
    let ?s4 = "wr ?s3 (r + 8) (wa a)"
    have run: "seglist_add s (wa a) c = Inr ?s4"
      using ri a r0 dr
      by (simp add: seglist_add_def Let_def i cl NEXT_FREE_ADDR_def PREV_FREE_ADDR_def WSIZE_def
          r_def[symmetric])
    have rep2: "lst_rep (wr ?s1 a (wa r)) F (R(i := a)) N P"
      using a sep1 by (intro lst_rep_wr_far[OF rep1]) simp_all
    have rep3: "lst_rep ?s3 F (R(i := a)) N P"
      using a sep2 by (intro lst_rep_wr_far[OF rep2]) simp_all
    have rd3: "rd ?s3 a = wa r" "rd ?s3 (a + 8) = wa 0"
      using a by (simp_all add: rd_wr_far)
    have rep4: "lst_rep ?s3 (insert a F) (R(i := a)) (N(a := r)) (P(a := 0))"
      using a sep rd3 by (intro lst_rep_insert[OF rep3]) simp_all
    have rep5: "lst_rep ?s4 (insert a F) (R(i := a)) (N(a := r)) (P(a := 0, r := a))"
      using rF by (intro lst_rep_prev_upd[OF rep4]) simp
    have rep6: "lst_rep ?s4 (insert a F) (add_R R i a) (add_N N R i a) (add_P P R i a)"
      using rep5 False by (simp add: add_R_def add_N_def add_P_def r_def)
    have "frame s ?s4 (insert (r + 8) (insert (a + 8) (insert a {S + 8 * i})))"
      using a dr by (intro frame_wr_step f1) simp_all
    then have "frame s ?s4 (lcells S (insert a F))"
      by (rule frame_mono) (use i12 rF in \<open>auto simp: lcells_def\<close>)
    with run rep6 show ?thesis unfolding S_def by blast
  qed
qed


lemma seglist_delete_rep:
  assumes rep: "lst_rep s F R N P" and li: "lists F cls R N P"
    and a: "a \<in> F" and i: "get_segclass_ind c = cls a"
  shows "\<exists>s'. seglist_delete s (wa a) c = Inr s' \<and>
     lst_rep s' (F - {a}) (del_R cls R N P a) (del_N N P a) (del_P N P a) \<and>
     frame s s' (lcells (unat (seg_listp s)) F)"
proof -
  define S where "S = unat (seg_listp s)"
  define n where "n = N a"
  define p where "p = P a"
  define i where "i = cls a"
  have i12: "i < 12" using li a unfolding lists_def i_def by blast
  have cl: "seg_class s i = wa (S + 8 * i)" unfolding S_def by (rule seg_class_wa) simp
  note ri = lst_rep_D(1,2)[OF rep i12, folded S_def]
  note da = lst_rep_D(3-7)[OF rep a, folded n_def p_def]
  have nF: "n \<noteq> 0 \<Longrightarrow> n \<in> F" and pF: "p \<noteq> 0 \<Longrightarrow> p \<in> F"
    using li a unfolding lists_def n_def p_def by blast+
  have n0: "wa n = 0 \<longleftrightarrow> n = 0" using nF lst_rep_bound[OF rep, of n] by (cases "n = 0") auto
  have p0: "wa p = 0 \<longleftrightarrow> p = 0" using pF lst_rep_bound[OF rep, of p] by (cases "p = 0") auto
  have sub: "F - {a} \<subseteq> F" by blast
  have start: "seglist_delete s (wa a) c =
     (if n \<noteq> 0 \<and> p = 0 then
        rbind (PUT_ADDR s (wa (S + 8 * i)) (wa n)) (\<lambda>s1. PUT_ADDR s1 (wa (n + 8)) 0)
      else if n = 0 \<and> p \<noteq> 0 then PUT_ADDR s (wa p) 0
      else if n \<noteq> 0 \<and> p \<noteq> 0 then
        rbind (PUT_ADDR s (wa (n + 8)) (wa p)) (\<lambda>s1. PUT_ADDR s1 (wa p) (wa n))
      else PUT_ADDR s (wa (S + 8 * i)) 0)"
    using da n0 p0
    by (simp add: seglist_delete_def Let_def assms(4) i_def[symmetric] cl NEXT_FREE_ADDR_def
        PREV_FREE_ADDR_def WSIZE_def)
  consider (first) "n \<noteq> 0" "p = 0" | (last) "n = 0" "p \<noteq> 0" | (mid) "n \<noteq> 0" "p \<noteq> 0"
    | (only) "n = 0" "p = 0" by blast
  then show ?thesis
  proof cases
    case first
    note dn = lst_rep_D(3-5)[OF rep nF[OF first(1)]]
    let ?s1 = "wr s (S + 8 * i) (wa n)"
    let ?s2 = "wr ?s1 (n + 8) 0"
    have run: "seglist_delete s (wa a) c = Inr ?s2" using first ri dn by (simp add: start)
    have rep1: "lst_rep ?s1 F (R(i := n)) N P"
      unfolding S_def by (rule lst_rep_root_upd[OF rep i12])
    have rep2: "lst_rep ?s2 F (R(i := n)) N (P(n := 0))"
      using lst_rep_prev_upd[OF rep1 nF[OF first(1)], of 0] by simp
    have rep3: "lst_rep ?s2 (F - {a}) (del_R cls R N P a) (del_N N P a) (del_P N P a)"
      using lst_rep_subset[OF rep2 sub] first
      by (simp add: del_R_def del_N_def del_P_def n_def[symmetric] p_def[symmetric] i_def[symmetric])
    have "frame s ?s2 (insert (n + 8) {S + 8 * i})"
      using dn ri by (intro frame_wr_step frame_wr) simp_all
    then have "frame s ?s2 (lcells S F)"
      by (rule frame_mono) (use i12 nF[OF first(1)] in \<open>auto simp: lcells_def\<close>)
    with run rep3 show ?thesis unfolding S_def by blast
  next
    case last
    note dp = lst_rep_D(3-5)[OF rep pF[OF last(2)]]
    let ?s1 = "wr s p 0"
    have run: "seglist_delete s (wa a) c = Inr ?s1" using last dp by (simp add: start)
    have rep1: "lst_rep ?s1 F R (N(p := 0)) P"
      using lst_rep_next_upd[OF rep pF[OF last(2)], of 0] by simp
    have rep3: "lst_rep ?s1 (F - {a}) (del_R cls R N P a) (del_N N P a) (del_P N P a)"
      using lst_rep_subset[OF rep1 sub] last
      by (simp add: del_R_def del_N_def del_P_def n_def[symmetric] p_def[symmetric] i_def[symmetric])
    have "frame s ?s1 {p}" using dp by (intro frame_wr) simp_all
    then have "frame s ?s1 (lcells S F)"
      by (rule frame_mono) (use pF[OF last(2)] in \<open>auto simp: lcells_def\<close>)
    with run rep3 show ?thesis unfolding S_def by blast
  next
    case mid
    note dn = lst_rep_D(3-5)[OF rep nF[OF mid(1)]]
    note dp = lst_rep_D(3-5)[OF rep pF[OF mid(2)]]
    let ?s1 = "wr s (n + 8) (wa p)"
    let ?s2 = "wr ?s1 p (wa n)"
    have run: "seglist_delete s (wa a) c = Inr ?s2" using mid dn dp by (simp add: start)
    have rep1: "lst_rep ?s1 F R N (P(n := p))"
      by (rule lst_rep_prev_upd[OF rep nF[OF mid(1)]])
    have rep2: "lst_rep ?s2 F R (N(p := n)) (P(n := p))"
      by (rule lst_rep_next_upd[OF rep1 pF[OF mid(2)]])
    have rep3: "lst_rep ?s2 (F - {a}) (del_R cls R N P a) (del_N N P a) (del_P N P a)"
      using lst_rep_subset[OF rep2 sub] mid
      by (simp add: del_R_def del_N_def del_P_def n_def[symmetric] p_def[symmetric] i_def[symmetric])
    have "frame s ?s2 (insert p {n + 8})"
      using dn dp by (intro frame_wr_step frame_wr) simp_all
    then have "frame s ?s2 (lcells S F)"
      by (rule frame_mono) (use nF[OF mid(1)] pF[OF mid(2)] in \<open>auto simp: lcells_def\<close>)
    with run rep3 show ?thesis unfolding S_def by blast
  next
    case only
    let ?s1 = "wr s (S + 8 * i) 0"
    have run: "seglist_delete s (wa a) c = Inr ?s1" using only ri by (simp add: start)
    have rep1: "lst_rep ?s1 F (R(i := 0)) N P"
      using lst_rep_root_upd[OF rep i12, of 0] unfolding S_def by simp
    have rep3: "lst_rep ?s1 (F - {a}) (del_R cls R N P a) (del_N N P a) (del_P N P a)"
      using lst_rep_subset[OF rep1 sub] only
      by (simp add: del_R_def del_N_def del_P_def n_def[symmetric] p_def[symmetric] i_def[symmetric])
    have "frame s ?s1 {S + 8 * i}" using ri by (intro frame_wr) simp_all
    then have "frame s ?s1 (lcells S F)"
      by (rule frame_mono) (use i12 in \<open>auto simp: lcells_def\<close>)
    with run rep3 show ?thesis unfolding S_def by blast
  qed
qed

lemma lists_cong:
  assumes "lists F cls R N P" "\<forall>a\<in>F. cls' a = cls a"
  shows "lists F cls' R N P"
  using assms unfolding lists_def by (smt (verit, best))

lemma fl_add:
  assumes fl: "fl s F cls"
    and a: "a \<notin> F" "unat (seg_listp s) + 96 \<le> a" "vc s a" "vc s (a + 8)"
    and sep: "\<forall>b\<in>F. a + 16 \<le> b \<or> b + 16 \<le> a"
    and c: "get_segclass_ind c = cls' a" "\<forall>b\<in>F. cls' b = cls b"
  shows "\<exists>s'. seglist_add s (wa a) c = Inr s' \<and> fl s' (insert a F) cls' \<and>
     frame s s' (lcells (unat (seg_listp s)) (insert a F))"
proof -
  from fl obtain R N P rk where li: "lists F cls R N P" and rep: "lst_rep s F R N P"
    and rk: "\<forall>b\<in>F. N b \<noteq> 0 \<longrightarrow> (rk (N b) :: nat) < rk b"
    unfolding fl_def by blast
  define i where "i = cls' a"
  have i12: "i < 12" using c(1) segclass_lt12[of c] unfolding i_def by simp
  have a0: "a \<noteq> 0" using a(2) by auto
  from seglist_add_rep[OF rep li a sep c(1)[folded i_def]]
  obtain s' where run: "seglist_add s (wa a) c = Inr s'"
    and rep': "lst_rep s' (insert a F) (add_R R i a) (add_N N R i a) (add_P P R i a)"
    and fr: "frame s s' (lcells (unat (seg_listp s)) (insert a F))" by blast
  have li1: "lists (insert a F) (cls(a := i)) (add_R R i a) (add_N N R i a) (add_P P R i a)"
    by (rule lists_add[OF li a(1) a0 i12])
  have li': "lists (insert a F) cls' (add_R R i a) (add_N N R i a) (add_P P R i a)"
    by (rule lists_cong[OF li1]) (use c(2) i_def in auto)
  define rk' where "rk' = rk(a := Suc (rk (R i)))"
  have nF: "\<And>b. b \<in> F \<Longrightarrow> N b \<noteq> 0 \<Longrightarrow> N b \<in> F" using li unfolding lists_def by blast
  have rF: "R i \<noteq> 0 \<Longrightarrow> R i \<in> F" using li i12 unfolding lists_def by blast
  have "\<forall>b\<in>insert a F. add_N N R i a b \<noteq> 0 \<longrightarrow> rk' (add_N N R i a b) < rk' b"
  proof (intro ballI impI)
    fix b assume b: "b \<in> insert a F" and nz: "add_N N R i a b \<noteq> 0"
    show "rk' (add_N N R i a b) < rk' b"
    proof (cases "b = a")
      case True
      then have "R i \<noteq> 0" using nz by (simp add: add_N_def)
      then have "R i \<noteq> a" using rF a(1) by auto
      then show ?thesis using True by (simp add: add_N_def rk'_def)
    next
      case False
      then have bF: "b \<in> F" and nb: "N b \<noteq> 0" using b nz by (auto simp: add_N_def)
      then have "N b \<noteq> a" using nF a(1) by auto
      then show ?thesis using False rk bF nb by (simp add: add_N_def rk'_def)
    qed
  qed
  with li' rep' have "fl s' (insert a F) cls'" unfolding fl_def by blast
  with run fr show ?thesis by blast
qed

lemma fl_del:
  assumes fl: "fl s F cls" and a: "a \<in> F" and c: "get_segclass_ind c = cls a"
  shows "\<exists>s'. seglist_delete s (wa a) c = Inr s' \<and> fl s' (F - {a}) cls \<and>
     frame s s' (lcells (unat (seg_listp s)) F)"
proof -
  from fl obtain R N P rk where li: "lists F cls R N P" and rep: "lst_rep s F R N P"
    and rk: "\<forall>b\<in>F. N b \<noteq> 0 \<longrightarrow> (rk (N b) :: nat) < rk b"
    unfolding fl_def by blast
  from seglist_delete_rep[OF rep li a c]
  obtain s' where run: "seglist_delete s (wa a) c = Inr s'"
    and rep': "lst_rep s' (F - {a}) (del_R cls R N P a) (del_N N P a) (del_P N P a)"
    and fr: "frame s s' (lcells (unat (seg_listp s)) F)" by blast
  have li': "lists (F - {a}) cls (del_R cls R N P a) (del_N N P a) (del_P N P a)"
    by (rule lists_del[OF li a])
  have pF: "P a \<noteq> 0 \<Longrightarrow> P a \<in> F \<and> N (P a) = a" using li a unfolding lists_def by blast
  have a0: "a \<noteq> 0" using li a unfolding lists_def by metis
  have "\<forall>b\<in>F - {a}. del_N N P a b \<noteq> 0 \<longrightarrow> rk (del_N N P a b) < rk b"
  proof (intro ballI impI)
    fix b assume b: "b \<in> F - {a}" and nz: "del_N N P a b \<noteq> 0"
    show "rk (del_N N P a b) < rk b"
    proof (cases "P a \<noteq> 0 \<and> b = P a")
      case True
      then have "N a \<noteq> 0" using nz by (simp add: del_N_def)
      then have 1: "rk (N a) < rk a" using rk a by blast
      have "rk (N (P a)) < rk (P a)" using rk pF True a0 by auto
      then have "rk a < rk (P a)" using pF True by simp
      with 1 show ?thesis using True by (simp add: del_N_def)
    next
      case False
      then have "del_N N P a b = N b" by (auto simp: del_N_def)
      then show ?thesis using rk b nz by auto
    qed
  qed
  with li' rep' have "fl s' (F - {a}) cls" unfolding fl_def by blast
  with run fr show ?thesis by blast
qed

lemma fl_path:
  assumes li: "lists F cls R N P" and rep: "lst_rep s F R N P"
    and rk: "\<forall>b\<in>F. N b \<noteq> 0 \<longrightarrow> (rk (N b) :: nat) < rk b"
  shows "a \<in> F \<Longrightarrow> \<exists>xs. path s (wa a) xs \<and> set xs \<subseteq> wa ` F"
proof (induction "rk a" arbitrary: a rule: less_induct)
  case less
  note da = lst_rep_D(4,6)[OF rep less.prems]
  have ab: "a < 2 ^ 64" by (rule lst_rep_bound[OF rep less.prems])
  have a0: "a \<noteq> 0" using li less.prems unfolding lists_def by metis
  have get: "GET s (NEXT_FREE_ADDR (wa a)) = Inr (wa (N a))"
    using da by (simp add: NEXT_FREE_ADDR_def)
  show ?case
  proof (cases "N a = 0")
    case True
    have "path s (wa a) [wa a]" using get True a0 ab by simp
    then show ?thesis using less.prems by (intro exI[of _ "[wa a]"]) simp
  next
    case False
    then have nF: "N a \<in> F" using li less.prems unfolding lists_def by blast
    have "rk (N a) < rk a" using rk less.prems False by blast
    from less.hyps[OF this nF] obtain xs where xs: "path s (wa (N a)) xs" "set xs \<subseteq> wa ` F"
      by blast
    have "path s (wa a) (wa a # xs)" using get xs(1) a0 ab by simp
    then show ?thesis using less.prems xs(2) by (intro exI[of _ "wa a # xs"]) simp
  qed
qed

lemma fl_bucket:
  assumes fl: "fl s F cls" and i: "i < 12"
  shows "\<exists>xs. bucket s i xs \<and> set xs \<subseteq> wa ` F"
proof -
  from fl obtain R N P rk where li: "lists F cls R N P" and rep: "lst_rep s F R N P"
    and rk: "\<forall>b\<in>F. N b \<noteq> 0 \<longrightarrow> (rk (N b) :: nat) < rk b"
    unfolding fl_def by blast
  have cl: "seg_class s i = wa (unat (seg_listp s) + 8 * i)" by (rule seg_class_wa) simp
  note ri = lst_rep_D(1,2)[OF rep i]
  have get: "GET s (seg_class s i) = Inr (wa (R i))" using ri by (simp add: cl)
  show ?thesis
  proof (cases "R i = 0")
    case True
    then have "bucket s i []" using get by (simp add: bucket_def)
    then show ?thesis by (intro exI[of _ "[]"]) simp
  next
    case False
    then have "R i \<in> F" using li i unfolding lists_def by blast
    from fl_path[OF li rep rk this] obtain xs where "path s (wa (R i)) xs" "set xs \<subseteq> wa ` F"
      by blast
    then show ?thesis using get by (intro exI[of _ xs]) (simp add: bucket_def)
  qed
qed

lemma find_fit_fl:
  assumes fl: "fl s F cls"
    and hd: "\<forall>a\<in>F. GET_SIZE s (HDRP (wa a)) = Inr (wa (sz a))"
  shows "\<exists>r. find_fit s asize = Inr r \<and> (r = 0 \<or> (\<exists>a\<in>F. r = wa a \<and> asize \<le> wa (sz a)))"
proof -
  from fl obtain R N P rk where rep: "lst_rep s F R N P" unfolding fl_def by blast
  have "\<forall>k. \<exists>xs. k < 12 \<longrightarrow> bucket s k xs \<and> set xs \<subseteq> wa ` F"
    using fl_bucket[OF fl] by blast
  then obtain bs where bs: "\<And>k. k < 12 \<Longrightarrow> bucket s k (bs k) \<and> set (bs k) \<subseteq> wa ` F"
    by metis
  define h where "h x = wa (sz (unat x))" for x :: "64 word"
  have hx: "GET_SIZE s (HDRP x) = Inr (h x)" if "x \<in> wa ` F" for x
  proof -
    from that obtain a where a: "a \<in> F" "x = wa a" by blast
    have "unat x = a" using lst_rep_bound[OF rep a(1)] a(2) by simp
    then show ?thesis using hd a by (simp add: h_def)
  qed
  define ind where "ind = get_segclass_ind asize"
  have ind12: "ind < 12" unfolding ind_def by (rule segclass_lt12)
  define Q where "Q k \<longleftrightarrow> ind \<le> k \<and> (k = 12 \<or> (\<exists>x\<in>set (bs k). asize \<le> h x))" for k
  define j where "j = (LEAST k. Q k)"
  have Q12: "Q 12" using ind12 by (simp add: Q_def)
  have Qj: "Q j" unfolding j_def by (rule LeastI[of Q, OF Q12])
  have j12: "j \<le> 12" unfolding j_def by (rule Least_le[of Q, OF Q12])
  have nQ: "\<not> Q k" if "k < j" for k using that not_less_Least[of k Q] unfolding j_def by blast
  have b1: "\<forall>k. ind \<le> k \<and> k \<le> j \<and> k < 12 \<longrightarrow>
      bucket s k (bs k) \<and> (\<forall>x\<in>set (bs k). GET_SIZE s (HDRP x) = Inr (h x))"
    using bs hx by blast
  have b2: "\<forall>k. ind \<le> k \<and> k < j \<longrightarrow> (\<forall>x\<in>set (bs k). h x < asize)"
  proof (intro allI impI ballI)
    fix k x assume k: "ind \<le> k \<and> k < j" and x: "x \<in> set (bs k)"
    from nQ[of k] k have "\<not> (\<exists>x\<in>set (bs k). asize \<le> h x)" by (simp add: Q_def)
    with x show "h x < asize" by auto
  qed
  have b3: "j < 12 \<longrightarrow> (\<exists>x\<in>set (bs j). asize \<le> h x)" using Qj by (auto simp: Q_def)
  have run: "find_fit s asize = Inr (if j = 12 then 0 else scan h asize (bs j) 0 0)"
    unfolding find_fit_def ind_def[symmetric]
    using Qj j12 by (intro find_fit_loop_spec[OF _ _ b1 b2 b3]) (auto simp: Q_def)
  show ?thesis
  proof (cases "j = 12")
    case True
    then show ?thesis using run by simp
  next
    case False
    then have j: "j < 12" using j12 by simp
    define r where "r = scan h asize (bs j) 0 0"
    have nz: "\<forall>x\<in>set (bs j). x \<noteq> 0"
      using bs[OF j] path_nonzero[of s _ "bs j"] by (auto simp: bucket_def split: sum.splits)
    from b3 j have ex: "\<not> (\<forall>x\<in>set (bs j). h x < asize)" using not_less by blast
    from scan_spec[OF nz, of 0 asize h 0] ex
    have "r \<in> set (bs j)" "asize \<le> h r" unfolding r_def by auto
    then obtain a where "a \<in> F" "r = wa a" using bs[OF j] by blast
    moreover have "unat r = a" using lst_rep_bound[OF rep \<open>a \<in> F\<close>] \<open>r = wa a\<close> by simp
    ultimately have "\<exists>a\<in>F. r = wa a \<and> asize \<le> wa (sz a)"
      using \<open>asize \<le> h r\<close> by (auto simp: h_def)
    then show ?thesis using run False by (simp add: r_def)
  qed
qed

section \<open>Headers\<close>

subsection \<open>The fields of a header word\<close>

lemma szf_OR: "szf (PACK x b) = szf x OR szf b"
  by (simp add: szf_def PACK_def bit.conj_disj_distrib2)

lemma alf_OR: "alf (PACK x b) = alf x OR alf b"
  by (simp add: alf_def PACK_def bit.conj_disj_distrib2)

lemma paf_OR: "paf (PACK x b) = paf x OR paf b"
  by (simp add: paf_def PACK_def bit.conj_disj_distrib2)

lemma two_push: "(2 :: 64 word) = push_bit 1 1" by simp

lemma bit_two: "bit (2 :: 64 word) n \<longleftrightarrow> n = 1"
  unfolding two_push by (auto simp: bit_simps)

lemma bit_seven: "bit (7 :: 64 word) n \<longleftrightarrow> n < 3"
  unfolding seven_mask by (auto simp: bit_simps)

lemma fields_of_fields [simp]:
  "szf (szf w) = szf w" "szf (alf w) = 0" "szf (paf w) = 0" "szf 1 = 0" "szf 2 = 0" "szf 0 = 0"
  "alf (szf w) = 0" "alf (alf w) = alf w" "alf (paf w) = 0" "alf 1 = 1" "alf 2 = 0" "alf 0 = 0"
  "paf (szf w) = 0" "paf (alf w) = 0" "paf (paf w) = paf w" "paf 1 = 0" "paf 2 = 2" "paf 0 = 0"
  unfolding szf_def alf_def paf_def seven_mask two_push
  by (rule bit_eqI; auto simp del: push_bit_of_1 simp add: bit_simps bit_1_iff)+

lemma szf_wa: "8 dvd n \<Longrightarrow> n < 2 ^ 64 \<Longrightarrow> szf (wa n) = wa n"
proof -
  assume n: "8 dvd n" "n < 2 ^ 64"
  have "unat (szf (wa n)) = unat (wa n)"
    unfolding szf_def unat_and_not7 using n by (simp add: dvd_mult_div_cancel)
  then show ?thesis by (rule word_unat_eq_iff[THEN iffD2])
qed

lemma szf_eq_wa: "szf w = wa n \<Longrightarrow> szf (wa n) = wa n"
  by (metis fields_of_fields(1))

lemma alf_cases: "alf w = 0 \<or> alf w = 1"
  unfolding alf_def by (metis and_one_eq even_iff_mod_2_eq_zero odd_iff_mod_2_eq_one)

lemma paf_cases: "paf w = 0 \<or> paf w = 2"
proof (cases "bit w 1")
  case True
  have "paf w = 2" unfolding paf_def by (rule bit_eqI) (use True in \<open>auto simp: bit_simps bit_two\<close>)
  then show ?thesis ..
next
  case False
  have "paf w = 0" unfolding paf_def by (rule bit_eqI) (use False in \<open>auto simp: bit_simps bit_two\<close>)
  then show ?thesis ..
qed

end
